theory Spec2Isabelle
  imports Complex_Main "HOL-Library.Word"
begin

section \<open>Data model\<close>

text \<open>
  The tight-binding core of pybinding: the \<open>Foundation\<close> of candidate sites
  (\<open>cppcore/src/system/Foundation.cpp\<close>), the modifier containers
  (\<open>src/system/SystemModifiers.cpp\<close>, \<open>src/hamiltonian/HamiltonianModifiers.cpp\<close>) and the
  type-erased views (\<open>include/support/uref.hpp\<close>).

  \<open>Index3D\<close> is a vector of three \<open>int\<close>s and \<open>Cartesian\<close> a vector of three \<open>float\<close>s.
  Index arithmetic is modelled on \<open>int\<close> (signed overflow of an index is undefined in the
  source), floats are modelled as \<open>real\<close> and only ever handed to the linear solver.
\<close>

type_synonym Index3D = "int \<times> int \<times> int"
type_synonym Cartesian = "real \<times> real \<times> real"

record Hopping =
  relative_index :: Index3D
  to_sublattice :: int
  hop_id :: int
  is_conjugate :: bool

record Sublattice =
  offset :: Cartesian
  hoppings :: "Hopping list"

record Lattice =
  vectors :: "Cartesian list"
  sublattices :: "Sublattice list"
  hopping_energies :: "complex list"
  min_neighbours :: int

text \<open>
  The arrays of a \<open>Foundation\<close>: \<open>is_valid\<close> is an \<open>ArrayX<bool>\<close>, \<open>neighbour_count\<close>
  an array of \<open>int16_t\<close> and \<open>hamiltonian_indices\<close> an \<open>ArrayX<int32_t>\<close>. The Hamiltonian
  indices never exceed \<open>num_sites\<close>, itself an \<open>int\<close>, so they are kept as \<open>int\<close>.
\<close>

record Foundation =
  lattice :: Lattice
  size :: Index3D
  size_n :: nat
  num_sites :: nat
  is_valid :: "bool list"
  neighbour_count :: "16 word list"
  hamiltonian_indices :: "int list"

text \<open>
  A \<open>Site\<close> is the cursor that iterating over a Foundation yields: the unit-cell index,
  the sublattice and the flat index \<open>idx\<close>.
\<close>

record Site =
  index :: Index3D
  sublattice :: nat
  idx :: nat


section \<open>Foundation::finalize\<close>

text \<open>
  \<^verbatim>\<open>for (int i = 0; i < num_sites; ++i) { if (is_valid[i]) hamiltonian_indices[i] = num_valid_sites++; }\<close>
  The loop state is the array and the running count.
\<close>

function finalize_loop :: "bool list \<Rightarrow> nat \<Rightarrow> nat \<Rightarrow> int list \<Rightarrow> int \<Rightarrow> int list \<times> int" where
  "finalize_loop valid n i his num_valid_sites =
     (if i < n then
        (if valid ! i
         then finalize_loop valid n (Suc i) (his[i := num_valid_sites]) (num_valid_sites + 1)
         else finalize_loop valid n (Suc i) his num_valid_sites)
      else (his, num_valid_sites))"
  by pat_completeness auto
termination
  by (relation "measure (\<lambda>(valid, n, i, his, c). n - i)") auto

declare finalize_loop.simps [simp del]

text \<open>\<open>finalize\<close> returns the updated Foundation together with the \<open>int\<close> it returns.\<close>

definition finalize :: "Foundation \<Rightarrow> Foundation \<times> int" where
  "finalize f =
     (let f1 = f\<lparr>neighbour_count := []\<rparr>;
          (his, num_valid_sites) =
             finalize_loop (is_valid f1) (num_sites f1) 0 (replicate (num_sites f1) (- 1)) 0
      in (f1\<lparr>hamiltonian_indices := his\<rparr>, num_valid_sites))"

text \<open>The number of valid sites with a raw index below \<open>k\<close>.\<close>

definition rank_below :: "bool list \<Rightarrow> nat \<Rightarrow> nat" where
  "rank_below valid k = length (filter (\<lambda>j. valid ! j) [0..<k])"


section \<open>Foundation::init_neighbor_count\<close>

text \<open>
  Iterating over a Foundation (\<^verbatim>\<open>for (auto& site : *this)\<close>) runs from \<open>begin() = {this, 0}\<close>
  to \<open>end() = {this, num_sites}\<close>, one \<open>Site\<close> per flat index. How the iterator splits a
  flat index into unit cell and sublattice is declared in \<open>Foundation.hpp\<close>, outside the
  sources at hand, so that split is the parameter \<open>layout\<close>.
\<close>

definition site_at :: "(nat \<Rightarrow> Index3D \<times> nat) \<Rightarrow> nat \<Rightarrow> Site" where
  "site_at layout i = \<lparr>index = fst (layout i), sublattice = snd (layout i), idx = i\<rparr>"

definition sites :: "(nat \<Rightarrow> Index3D \<times> nat) \<Rightarrow> Foundation \<Rightarrow> Site list" where
  "sites layout f = map (site_at layout) [0..<num_sites f]"

definition index_add :: "Index3D \<Rightarrow> Index3D \<Rightarrow> Index3D" where
  "index_add a b = (case a of (ax, ay, az) \<Rightarrow> case b of (bx, by, bz) \<Rightarrow> (ax + bx, ay + by, az + bz))"

text \<open>\<^verbatim>\<open>any_of(index < 0) || any_of(index >= size.array())\<close>\<close>

definition out_of_bounds :: "Index3D \<Rightarrow> Index3D \<Rightarrow> bool" where
  "out_of_bounds sz ix =
     (case ix of (x, y, z) \<Rightarrow> case sz of (sx, sy, sz) \<Rightarrow>
        (x < 0 \<or> y < 0 \<or> z < 0) \<or> (x \<ge> sx \<or> y \<ge> sy \<or> z \<ge> sz))"

text \<open>
  The body of the loop over sites: \<open>num_neighbors\<close> is an \<open>int16_t\<close>, initialised with
  \<^verbatim>\<open>static_cast<int16_t>(sublattice.hoppings.size())\<close> and decremented once per hopping
  that leaves the Foundation.
\<close>

definition site_neighbor_count :: "Foundation \<Rightarrow> Site \<Rightarrow> 16 word" where
  "site_neighbor_count f site =
     (let sub = sublattices (lattice f) ! sublattice site;
          num_neighbors = (word_of_nat (length (hoppings sub)) :: 16 word)
      in foldl (\<lambda>n hopping.
                  if out_of_bounds (size f) (index_add (index site) (relative_index hopping))
                  then n - 1 else n)
           num_neighbors (hoppings sub))"

text \<open>\<^verbatim>\<open>neighbour_count[site.idx] = num_neighbors;\<close>\<close>

definition init_site :: "Foundation \<Rightarrow> Site \<Rightarrow> Foundation" where
  "init_site g site =
     g\<lparr>neighbour_count := (neighbour_count g)[idx site := site_neighbor_count g site]\<rparr>"

text \<open>
  \<open>neighbour_count.resize(num_sites)\<close> leaves the entries unspecified; every one of them is
  written by the loop, so they start as \<open>0\<close> here.
\<close>

definition init_neighbor_count :: "(nat \<Rightarrow> Index3D \<times> nat) \<Rightarrow> Foundation \<Rightarrow> Foundation" where
  "init_neighbor_count layout f =
     foldl init_site (f\<lparr>neighbour_count := replicate (num_sites f) 0\<rparr>) (sites layout f)"

text \<open>The hoppings of a site's sublattice, and those among them that leave the Foundation.\<close>

definition site_hoppings :: "Foundation \<Rightarrow> Site \<Rightarrow> Hopping list" where
  "site_hoppings f site = hoppings (sublattices (lattice f) ! sublattice site)"

definition edge_hoppings :: "Foundation \<Rightarrow> Site \<Rightarrow> Hopping list" where
  "edge_hoppings f site =
     filter (\<lambda>hopping. out_of_bounds (size f) (index_add (index site) (relative_index hopping)))
       (site_hoppings f site)"

text \<open>
  A chain of \<open>32768\<close> unit cells with two sublattices, where sublattice 0 hops to
  sublattice 1 in each of the cells \<open>0, \<dots>, 32767\<close> to its right: every hopping of the
  first site stays inside the Foundation.
\<close>

definition long_range_lattice :: Lattice where
  "long_range_lattice =
     \<lparr>vectors = [(1, 0, 0)],
      sublattices =
        [\<lparr>offset = (0, 0, 0),
          hoppings = map (\<lambda>k. \<lparr>relative_index = (int k, 0, 0), to_sublattice = 1,
                                 hop_id = 0, is_conjugate = False\<rparr>) [0..<32768]\<rparr>,
         \<lparr>offset = (1/2, 0, 0),
          hoppings = map (\<lambda>k. \<lparr>relative_index = (- int k, 0, 0), to_sublattice = 0,
                                 hop_id = 0, is_conjugate = True\<rparr>) [0..<32768]\<rparr>],
      hopping_energies = [1], min_neighbours = 1\<rparr>"

definition long_range_foundation :: Foundation where
  "long_range_foundation =
     \<lparr>lattice = long_range_lattice, size = (32768, 1, 1), size_n = 2, num_sites = 65536,
      is_valid = replicate 65536 True, neighbour_count = [], hamiltonian_indices = []\<rparr>"

text \<open>Sublattice fastest, then the cell along the chain.\<close>

definition chain_layout :: "nat \<Rightarrow> Index3D \<times> nat" where
  "chain_layout i = ((int (i div 2), 0, 0), i mod 2)"

section \<open>Foundation::trim_edges and Foundation::clear_neighbors\<close>

text \<open>
  The accessors of a \<open>Site\<close> cursor read and write the Foundation's arrays at the site's
  flat index; a site is identified by that index here.
\<close>

definition site_is_valid :: "Foundation \<Rightarrow> nat \<Rightarrow> bool" where
  "site_is_valid f s = is_valid f ! s"

definition set_valid :: "Foundation \<Rightarrow> nat \<Rightarrow> bool \<Rightarrow> Foundation" where
  "set_valid f s b = f\<lparr>is_valid := (is_valid f)[s := b]\<rparr>"

definition get_neighbor_count :: "Foundation \<Rightarrow> nat \<Rightarrow> 16 word" where
  "get_neighbor_count f s = neighbour_count f ! s"

definition set_neighbor_count :: "Foundation \<Rightarrow> nat \<Rightarrow> 16 word \<Rightarrow> Foundation" where
  "set_neighbor_count f s c = f\<lparr>neighbour_count := (neighbour_count f)[s := c]\<rparr>"

text \<open>\<^verbatim>\<open>neighbor.set_neighbor_count(neighbor.get_neighbor_count() - 1);\<close> on \<open>int16_t\<close>.\<close>

definition decrement :: "Foundation \<Rightarrow> nat \<Rightarrow> Foundation" where
  "decrement f x = set_neighbor_count f x (get_neighbor_count f x - 1)"

text \<open>\<^verbatim>\<open>neighbor.get_neighbor_count() < lattice.min_neighbours\<close>, a signed comparison.\<close>

definition below_minimum :: "Foundation \<Rightarrow> nat \<Rightarrow> bool" where
  "below_minimum f x \<longleftrightarrow> sint (get_neighbor_count f x) < min_neighbours (lattice f)"

text \<open>
  \<open>site.for_each_neighbour\<close> is declared in \<open>Foundation.hpp\<close>, outside the sources at hand.
  It is the parameter \<open>nb\<close>: the flat indices of the sites that the callback is called
  with, in order, for the site with a given flat index.

  \<open>clear_neighbors\<close> calls itself from inside the callback. The recursion is modelled
  with fuel that bounds its depth: \<open>clear_neighbors nb n f s\<close> is \<open>None\<close> when depth \<open>n\<close> does
  not suffice. \<open>clear_each\<close> is the loop over the neighbours, its body the callback.
\<close>

fun clear_neighbors :: "(nat \<Rightarrow> nat list) \<Rightarrow> nat \<Rightarrow> Foundation \<Rightarrow> nat \<Rightarrow> Foundation option"
  and clear_each :: "(nat \<Rightarrow> nat list) \<Rightarrow> nat \<Rightarrow> Foundation \<Rightarrow> nat list \<Rightarrow> Foundation option"
where
  "clear_neighbors nb 0 f s = None"
| "clear_neighbors nb (Suc n) f s =
     (if get_neighbor_count f s = 0 then Some f
      else (case clear_each nb n f (nb s) of
              None \<Rightarrow> None
            | Some f' \<Rightarrow> Some (set_neighbor_count f' s 0)))"
| "clear_each nb n f [] = Some f"
| "clear_each nb n f (x # xs) =
     (if \<not> site_is_valid f x then clear_each nb n f xs
      else if below_minimum (decrement f x) x then
        (case clear_neighbors nb n (set_valid (decrement f x) x False) x of
           None \<Rightarrow> None
         | Some f' \<Rightarrow> clear_each nb n f' xs)
      else clear_each nb n (decrement f x) xs)"

text \<open>\<^verbatim>\<open>for (auto& site : *this) { if (!site.is_valid()) clear_neighbors(site); }\<close>\<close>

fun trim_loop :: "(nat \<Rightarrow> nat list) \<Rightarrow> nat \<Rightarrow> Foundation \<Rightarrow> nat list \<Rightarrow> Foundation option" where
  "trim_loop nb n f [] = Some f"
| "trim_loop nb n f (s # ss) =
     (if \<not> site_is_valid f s then
        (case clear_neighbors nb n f s of
           None \<Rightarrow> None
         | Some f' \<Rightarrow> trim_loop nb n f' ss)
      else trim_loop nb n f ss)"

definition trim_edges :: "(nat \<Rightarrow> nat list) \<Rightarrow> nat \<Rightarrow> Foundation \<Rightarrow> Foundation option" where
  "trim_edges nb n f = trim_loop nb n f [0..<num_sites f]"

text \<open>
  A state is well formed when both arrays have \<open>num_sites\<close> entries and every neighbour
  of a site is a site.
\<close>

definition well_formed :: "(nat \<Rightarrow> nat list) \<Rightarrow> Foundation \<Rightarrow> bool" where
  "well_formed nb f \<longleftrightarrow>
     length (is_valid f) = num_sites f \<and> length (neighbour_count f) = num_sites f \<and>
     (\<forall>s<num_sites f. \<forall>x\<in>set (nb s). x < num_sites f)"

definition valid_sites :: "Foundation \<Rightarrow> nat set" where
  "valid_sites f = {i. i < num_sites f \<and> is_valid f ! i}"

text \<open>The invalid sites whose neighbours have not been told yet.\<close>

definition pending :: "Foundation \<Rightarrow> nat set" where
  "pending f = {i. i < num_sites f \<and> \<not> is_valid f ! i \<and> neighbour_count f ! i \<noteq> 0}"

text \<open>What a pass keeps: the shape of the state, and validity never comes back.\<close>

definition preserved :: "(nat \<Rightarrow> nat list) \<Rightarrow> Foundation \<Rightarrow> Foundation \<Rightarrow> bool" where
  "preserved nb f f' \<longleftrightarrow>
     well_formed nb f' \<and> num_sites f' = num_sites f \<and> lattice f' = lattice f \<and>
     valid_sites f' \<subseteq> valid_sites f"

text \<open>
  A chain of three sites, each the neighbour of the next, that needs two neighbours per
  site; the left end starts out invalid.
\<close>

definition chain3_neighbours :: "nat \<Rightarrow> nat list" where
  "chain3_neighbours s = (if s = 0 then [1] else if s = 1 then [0, 2] else [1])"

definition chain3 :: Foundation where
  "chain3 =
     \<lparr>lattice = \<lparr>vectors = [(1, 0, 0)],
                 sublattices = [\<lparr>offset = (0, 0, 0),
                    hoppings = [\<lparr>relative_index = (1, 0, 0), to_sublattice = 0, hop_id = 0, is_conjugate = False\<rparr>,
                                \<lparr>relative_index = (- 1, 0, 0), to_sublattice = 0, hop_id = 0, is_conjugate = True\<rparr>]\<rparr>],
                 hopping_energies = [1], min_neighbours = 2\<rparr>,
      size = (3, 1, 1), size_n = 1, num_sites = 3,
      is_valid = [False, True, True], neighbour_count = [1, 2, 1], hamiltonian_indices = []\<rparr>"

section \<open>Foundation::make_sublattice_ids\<close>

text \<open>
  \<open>sub_id\<close> is the signed integer type of sublattice ids; its declaration is not part of
  the sources at hand, so its width \<open>w\<close> (in bits) is a parameter. \<open>sub_id_cast w n\<close> is
  \<^verbatim>\<open>static_cast<sub_id>(n)\<close>: the value of \<open>n\<close> wrapped into the signed \<open>w\<close>-bit range.
\<close>

definition sub_id_cast :: "nat \<Rightarrow> nat \<Rightarrow> int" where
  "sub_id_cast w n = (int n + 2 ^ (w - 1)) mod 2 ^ w - 2 ^ (w - 1)"

text \<open>
  The inner loop \<^verbatim>\<open>for (auto id = sub_id{0}; id < max_id; ++id, ++i) sublattice_ids[i] = id;\<close>
  It stops below \<open>max_id\<close>, so \<open>++id\<close> never leaves the range of \<open>sub_id\<close>. A write past
  the end of the array is undefined in the source and is \<open>None\<close> here.
\<close>

function fill_ids :: "int \<Rightarrow> int \<Rightarrow> nat \<Rightarrow> int list \<Rightarrow> (int list \<times> nat) option" where
  "fill_ids max_id sid i sublattice_ids =
     (if sid < max_id then
        (if i < length sublattice_ids
         then fill_ids max_id (sid + 1) (Suc i) (sublattice_ids[i := sid])
         else None)
      else Some (sublattice_ids, i))"
  by pat_completeness auto
termination
  by (relation "measure (\<lambda>(max_id, sid, i, ids). nat (max_id - sid))") auto

declare fill_ids.simps [simp del]

text \<open>
  The outer loop \<^verbatim>\<open>for (auto i = 0; i < num_sites;)\<close> has no increment of its own: when
  \<open>max_id \<le> 0\<close> and \<open>0 < num_sites\<close> it never ends, which is the value \<open>None\<close>.
\<close>

partial_function (option) sublattice_ids_loop :: "nat \<Rightarrow> int \<Rightarrow> nat \<Rightarrow> int list \<Rightarrow> int list option" where
  "sublattice_ids_loop n max_id i sublattice_ids =
     (if i < n then
        Option.bind (fill_ids max_id 0 i sublattice_ids)
          (\<lambda>(ids', i'). sublattice_ids_loop n max_id i' ids')
      else Some sublattice_ids)"

definition make_sublattice_ids :: "nat \<Rightarrow> Foundation \<Rightarrow> int list option" where
  "make_sublattice_ids w f =
     sublattice_ids_loop (num_sites f) (sub_id_cast w (length (sublattices (lattice f)))) 0
       (replicate (num_sites f) 0)"


section \<open>Type-erased views: DenseURef and uref_cast\<close>

text \<open>
  \<open>std::logic_error\<close> with its message is the one exception type the modelled code throws.
\<close>

datatype error = logic_error string

text \<open>
  The tags of \<open>enum class ScalarType {f, cf, d, cd, i, none}\<close> and the C++ scalar types
  that \<open>detail::get_type\<close> is specialised for.
\<close>

datatype ScalarType = ScalarType_f | ScalarType_cf | ScalarType_d | ScalarType_cd
  | ScalarType_i | ScalarType_none

datatype scalar_t = Float_t | ComplexFloat_t | Double_t | ComplexDouble_t | Int_t

fun get_type :: "scalar_t \<Rightarrow> ScalarType" where
  "get_type Float_t = ScalarType_f"
| "get_type ComplexFloat_t = ScalarType_cf"
| "get_type Double_t = ScalarType_d"
| "get_type ComplexDouble_t = ScalarType_cd"
| "get_type Int_t = ScalarType_i"

text \<open>\<open>data\<close> is the address the \<open>const void*\<close> holds.\<close>

record DenseURef =
  type :: ScalarType
  data :: nat
  is_row_major :: bool
  rows :: int
  cols :: int

text \<open>
  The template argument \<open>Derived\<close> is a dense Eigen type: its \<open>Scalar\<close> and its
  compile-time shape, where \<open>Dynamic\<close> is \<open>-1\<close>. \<open>ArrayXf\<close>, say, is a column of floats.
\<close>

record Derived =
  Scalar :: scalar_t
  RowsAtCompileTime :: int
  ColsAtCompileTime :: int

definition Dynamic :: int where
  "Dynamic = - 1"

definition IsVectorAtCompileTime :: "Derived \<Rightarrow> bool" where
  "IsVectorAtCompileTime D \<longleftrightarrow> RowsAtCompileTime D = 1 \<or> ColsAtCompileTime D = 1"

definition ArrayXf :: Derived where
  "ArrayXf = \<lparr>Scalar = Float_t, RowsAtCompileTime = Dynamic, ColsAtCompileTime = 1\<rparr>"

definition ArrayXXf :: Derived where
  "ArrayXXf = \<lparr>Scalar = Float_t, RowsAtCompileTime = Dynamic, ColsAtCompileTime = Dynamic\<rparr>"

text \<open>
  An \<open>Eigen::Map<const Derived>\<close>: the typed pointer and the run-time shape. The two
  constructors are those of Eigen: \<open>Map(ptr, size)\<close> for a vector type lays the \<open>size\<close>
  coefficients out as a column or as a row, as the type says; \<open>Map(ptr, rows, cols)\<close> takes
  the shape as given.
\<close>

record Map =
  map_scalar :: scalar_t
  map_data :: nat
  map_rows :: int
  map_cols :: int

definition Map_vector :: "Derived \<Rightarrow> nat \<Rightarrow> int \<Rightarrow> Map" where
  "Map_vector D ptr n =
     (if ColsAtCompileTime D = 1
      then \<lparr>map_scalar = Scalar D, map_data = ptr, map_rows = n, map_cols = 1\<rparr>
      else \<lparr>map_scalar = Scalar D, map_data = ptr, map_rows = 1, map_cols = n\<rparr>)"

definition Map_matrix :: "Derived \<Rightarrow> nat \<Rightarrow> int \<Rightarrow> int \<Rightarrow> Map" where
  "Map_matrix D ptr r c = \<lparr>map_scalar = Scalar D, map_data = ptr, map_rows = r, map_cols = c\<rparr>"

text \<open>The two specialisations of \<open>detail::make_map\<close>, selected by \<open>IsVectorAtCompileTime\<close>.\<close>

definition make_map :: "Derived \<Rightarrow> DenseURef \<Rightarrow> Map" where
  "make_map D u =
     (if IsVectorAtCompileTime D
      then Map_vector D (data u) (if is_row_major u then cols u else rows u)
      else Map_matrix D (data u) (rows u) (cols u))"

definition uref_cast :: "Derived \<Rightarrow> DenseURef \<Rightarrow> error + Map" where
  "uref_cast D u =
     (if type u \<noteq> get_type (Scalar D)
      then Inl (logic_error ''eigen_cast(DenseURef) - wrong scalar type selected'')
      else Inr (make_map D u))"

text \<open>A view of a \<open>2 \<times> 3\<close> column-major array of floats at address \<open>4096\<close>.\<close>

definition float_2x3 :: DenseURef where
  "float_2x3 = \<lparr>type = ScalarType_f, data = 4096, is_row_major = False, rows = 2, cols = 3\<rparr>"

section \<open>Foundation::find_bounds and the Shape-mode constructor\<close>

text \<open>
  A \<open>Shape\<close> is consumed through its contract only: \<open>contains\<close> maps a sequence of
  positions to a sequence of booleans, \<open>vertices\<close> are what the bounding box is estimated
  from, \<open>offset\<close> is the global translation.
\<close>

record Shape =
  contains :: "Cartesian list \<Rightarrow> bool list"
  vertices :: "Cartesian list"
  shape_offset :: Cartesian

text \<open>An \<open>Array3i\<close> holds three \<open>int\<close>s of 32 bits: arithmetic wraps, comparison is signed.\<close>

type_synonym Array3i = "32 word \<times> 32 word \<times> 32 word"

text \<open>\<open>v.head(ndim)\<close> of a Cartesian vector: its first \<open>ndim\<close> coefficients.\<close>

definition head :: "nat \<Rightarrow> Cartesian \<Rightarrow> real list" where
  "head ndim v = take ndim (case v of (x, y, z) \<Rightarrow> [x, y, z])"

text \<open>The \<open>ndim \<times> ndim\<close> matrix whose columns are the heads of the primitive vectors.\<close>

definition lattice_matrix :: "Lattice \<Rightarrow> real list list" where
  "lattice_matrix l = map (head (length (vectors l))) (vectors l)"

text \<open>\<^verbatim>\<open>v.head(ndim) = ...\<close> on an \<open>Array3i\<close>: the first \<open>ndim\<close> coefficients are overwritten.\<close>

definition assign_head :: "nat \<Rightarrow> 32 word list \<Rightarrow> Array3i \<Rightarrow> Array3i" where
  "assign_head ndim xs v =
     (case v of (a, b, c) \<Rightarrow>
        (if 0 < ndim then xs ! 0 else a, if 1 < ndim then xs ! 1 else b, if 2 < ndim then xs ! 2 else c))"

text \<open>\<^verbatim>\<open>b.head(ndim) -= 1\<close> and \<^verbatim>\<open>b.head(ndim) += 1\<close>, in 32 bits.\<close>

definition shift_head :: "nat \<Rightarrow> 32 word \<Rightarrow> Array3i \<Rightarrow> Array3i" where
  "shift_head ndim d v =
     (case v of (a, b, c) \<Rightarrow>
        (if 0 < ndim then a + d else a, if 1 < ndim then b + d else b, if 2 < ndim then c + d else c))"

text \<open>\<^verbatim>\<open>(v < bound).select(v, bound)\<close> and \<^verbatim>\<open>(v > bound).select(v, bound)\<close>, coefficient-wise.\<close>

definition select_less :: "Array3i \<Rightarrow> Array3i \<Rightarrow> Array3i" where
  "select_less v bound =
     (case v of (a, b, c) \<Rightarrow> case bound of (x, y, z) \<Rightarrow>
        (if sint a < sint x then a else x, if sint b < sint y then b else y,
         if sint c < sint z then c else z))"

definition select_greater :: "Array3i \<Rightarrow> Array3i \<Rightarrow> Array3i" where
  "select_greater v bound =
     (case v of (a, b, c) \<Rightarrow> case bound of (x, y, z) \<Rightarrow>
        (if sint a > sint x then a else x, if sint b > sint y then b else y,
         if sint c > sint z then c else z))"

definition INT_MAX :: "32 word" where
  "INT_MAX = 2147483647"

definition INT_MIN :: "32 word" where
  "INT_MIN = - 2147483648"

text \<open>The conversion of an \<open>Array3i\<close> to the \<open>Index3D\<close> that \<open>find_bounds\<close> returns.\<close>

definition to_Index3D :: "Array3i \<Rightarrow> Index3D" where
  "to_Index3D v = (case v of (a, b, c) \<Rightarrow> (sint a, sint b, sint c))"

text \<open>
  The linear solve is the library's:
  \<^verbatim>\<open>lattice_matrix.colPivHouseholderQr().solve(p).cast<int>()\<close>. It is the parameter \<open>solve\<close>,
  from the matrix (as its columns) and the right-hand side to the \<open>ndim\<close> coefficients as
  \<open>int\<close>s. \<open>find_bounds\<close> has no \<open>throw\<close> and no handler, and it tests nothing about the
  matrix: the only way it can fail is an exception out of the library call, which passes
  through it to the caller.
\<close>

type_synonym solver = "real list list \<Rightarrow> real list \<Rightarrow> error + 32 word list"

text \<open>The body of the loop up to \<open>v\<close>: the vertex in lattice-vector coordinates.\<close>

definition solved_vertex :: "solver \<Rightarrow> Lattice \<Rightarrow> Cartesian \<Rightarrow> error + Array3i" where
  "solved_vertex solve l point =
     (case solve (lattice_matrix l) (head (length (vectors l)) point) of
        Inl e \<Rightarrow> Inl e
      | Inr xs \<Rightarrow> Inr (assign_head (length (vectors l)) xs (0, 0, 0)))"

text \<open>\<^verbatim>\<open>for (auto const& point : shape.vertices)\<close>; the state is the pair of bounds.\<close>

fun bounds_loop :: "solver \<Rightarrow> Lattice \<Rightarrow> Array3i \<times> Array3i \<Rightarrow> Cartesian list
    \<Rightarrow> error + Array3i \<times> Array3i" where
  "bounds_loop solve l bounds [] = Inr bounds"
| "bounds_loop solve l bounds (point # points) =
     (case solved_vertex solve l point of
        Inl e \<Rightarrow> Inl e
      | Inr v \<Rightarrow>
          bounds_loop solve l (select_less v (fst bounds), select_greater v (snd bounds)) points)"

definition find_bounds :: "solver \<Rightarrow> Lattice \<Rightarrow> Shape \<Rightarrow> error + Index3D \<times> Index3D" where
  "find_bounds solve l shape =
     (case bounds_loop solve l ((INT_MAX, INT_MAX, INT_MAX), (INT_MIN, INT_MIN, INT_MIN))
             (vertices shape) of
        Inl e \<Rightarrow> Inl e
      | Inr bounds \<Rightarrow>
          Inr (to_Index3D (shift_head (length (vectors l)) (- 1) (fst bounds)),
               to_Index3D (shift_head (length (vectors l)) 1 (snd bounds))))"

text \<open>Coefficient-wise signed order on \<open>Array3i\<close>.\<close>

definition le3 :: "Array3i \<Rightarrow> Array3i \<Rightarrow> bool" where
  "le3 u v \<longleftrightarrow>
     (case u of (a, b, c) \<Rightarrow> case v of (x, y, z) \<Rightarrow>
        sint a \<le> sint x \<and> sint b \<le> sint y \<and> sint c \<le> sint z)"

text \<open>Arithmetic on \<open>Index3D\<close> and on \<open>int\<close> is in 32 bits.\<close>

definition wrap32 :: "int \<Rightarrow> int" where
  "wrap32 x = signed_take_bit 31 x"

text \<open>\<^verbatim>\<open>size = (bounds.second - bounds.first) + Index3D::Ones();\<close>\<close>

definition box_size :: "Index3D \<times> Index3D \<Rightarrow> Index3D" where
  "box_size bounds =
     (case fst bounds of (lx, ly, lz) \<Rightarrow> case snd bounds of (hx, hy, hz) \<Rightarrow>
        (wrap32 (wrap32 (hx - lx) + 1), wrap32 (wrap32 (hy - ly) + 1), wrap32 (wrap32 (hz - lz) + 1)))"

text \<open>
  \<^verbatim>\<open>num_sites = size.prod() * size_n;\<close> with \<open>size_n\<close> the number of sublattices (which the
  Lattice keeps within the range of \<open>sub_id\<close>).
\<close>

definition shape_num_sites :: "Lattice \<Rightarrow> Index3D \<Rightarrow> int" where
  "shape_num_sites l sz =
     (case sz of (sx, sy, sz) \<Rightarrow>
        wrap32 (wrap32 (wrap32 (sx * sy) * sz) * int (length (sublattices l))))"

definition index_nth :: "Index3D \<Rightarrow> nat \<Rightarrow> int" where
  "index_nth v i = (case v of (x, y, z) \<Rightarrow> if i = 0 then x else if i = 1 then y else z)"

definition cart_add :: "Cartesian \<Rightarrow> Cartesian \<Rightarrow> Cartesian" where
  "cart_add u v = (case u of (a, b, c) \<Rightarrow> case v of (x, y, z) \<Rightarrow> (a + x, b + y, c + z))"

definition cart_scale :: "real \<Rightarrow> Cartesian \<Rightarrow> Cartesian" where
  "cart_scale k v = (case v of (x, y, z) \<Rightarrow> (k * x, k * y, k * z))"

text \<open>
  \<^verbatim>\<open>for (i < lattice.vectors.size()) p += static_cast<float>(index[i]) * lattice.vectors[i];\<close>
  is shared by the origin of the constructor and by \<open>calculate_position\<close>.
\<close>

definition add_lattice_vectors :: "Lattice \<Rightarrow> Index3D \<Rightarrow> Cartesian \<Rightarrow> Cartesian" where
  "add_lattice_vectors l ix p =
     foldl (\<lambda>q i. cart_add q (cart_scale (real_of_int (index_nth ix i)) (vectors l ! i)))
       p [0..<length (vectors l)]"

definition calculate_position :: "Lattice \<Rightarrow> Site \<Rightarrow> Cartesian \<Rightarrow> Cartesian" where
  "calculate_position l site origin =
     cart_add (add_lattice_vectors l (index site) origin) (offset (sublattices l ! sublattice site))"

text \<open>
  \<open>init_positions\<close>. The Foundation of this development does not carry the positions, which
  no other operation modelled here reads; the constructor hands them to \<open>shape.contains\<close>.
\<close>

definition init_positions :: "(nat \<Rightarrow> Index3D \<times> nat) \<Rightarrow> Foundation \<Rightarrow> Cartesian \<Rightarrow> Cartesian list" where
  "init_positions layout f origin =
     foldl (\<lambda>ps site. ps[idx site := calculate_position (lattice f) site origin])
       (replicate (num_sites f) (0, 0, 0)) (sites layout f)"

text \<open>
  The constructor \<open>Foundation(Lattice const&, Shape const&)\<close>. Its parameters are those of
  the operations it calls: the solver, the iterator's layout, the neighbour structure and
  the fuel of the trimming pass. \<open>Some (Inl e)\<close> is an exception that leaves the
  constructor, \<open>Some (Inr f)\<close> the constructed Foundation. \<open>None\<close> stands for a run without a
  result here: the fuel ran out, or \<open>num_sites\<close> came out negative, with which
  \<open>positions.resize\<close> cannot work.
\<close>

definition Foundation_shape ::
  "solver \<Rightarrow> (nat \<Rightarrow> Index3D \<times> nat) \<Rightarrow> (nat \<Rightarrow> nat list) \<Rightarrow> nat \<Rightarrow> Lattice \<Rightarrow> Shape
     \<Rightarrow> (error + Foundation) option" where
  "Foundation_shape solve layout nb fuel l shape =
     (case find_bounds solve l shape of
        Inl e \<Rightarrow> Some (Inl e)
      | Inr bounds \<Rightarrow>
          (if shape_num_sites l (box_size bounds) < 0 then None
           else
             (let f0 = \<lparr>lattice = l, size = box_size bounds, size_n = length (sublattices l),
                        num_sites = nat (shape_num_sites l (box_size bounds)),
                        is_valid = [], neighbour_count = [], hamiltonian_indices = []\<rparr>;
                  origin = add_lattice_vectors l (fst bounds) (shape_offset shape);
                  positions = init_positions layout f0 origin;
                  f1 = f0\<lparr>is_valid := contains shape positions\<rparr>;
                  f2 = init_neighbor_count layout f1
              in map_option Inr (trim_edges nb fuel f2))))"

text \<open>
  Two collinear primitive vectors in the plane, so that the lattice matrix
  \<open>((1, 2), (0, 0))\<close> is singular, and a segment along them as the shape.
\<close>

definition collinear_lattice :: Lattice where
  "collinear_lattice =
     \<lparr>vectors = [(1, 0, 0), (2, 0, 0)],
      sublattices = [\<lparr>offset = (0, 0, 0), hoppings = []\<rparr>],
      hopping_energies = [], min_neighbours = 1\<rparr>"

definition segment :: Shape where
  "segment = \<lparr>contains = map (\<lambda>p. True), vertices = [(0, 0, 0), (4, 0, 0)],
              shape_offset = (0, 0, 0)\<rparr>"

text \<open>The determinant of a \<open>2 \<times> 2\<close> matrix given by its columns.\<close>

definition det2 :: "real list list \<Rightarrow> real" where
  "det2 m = (m ! 0 ! 0) * (m ! 1 ! 1) - (m ! 1 ! 0) * (m ! 0 ! 1)"

text \<open>\<open>.cast<int>()\<close> of a float within the range of \<open>int\<close>: truncation toward zero.\<close>

definition cast_int :: "real \<Rightarrow> 32 word" where
  "cast_int x = word_of_int (if x < 0 then \<lceil>x\<rceil> else \<lfloor>x\<rfloor>)"

text \<open>
  A rank-revealing solve does not signal a singular matrix, it returns some vector. For
  the right-hand side \<open>(p, 0)\<close> of the collinear lattice, \<open>(0, p / 2)\<close> is one that solves
  the system; \<open>collinear_solve\<close> returns it, cast to \<open>int\<close>.
\<close>

definition collinear_solve :: solver where
  "collinear_solve m p = Inr [0, cast_int (p ! 0 / 2)]"

text \<open>The collinear lattice has no hoppings, so no site has a neighbour.\<close>

definition no_neighbours :: "nat \<Rightarrow> nat list" where
  "no_neighbours s = []"

definition grid_layout :: "nat \<Rightarrow> Index3D \<times> nat" where
  "grid_layout i = ((int (i div 5), int (i mod 5), 0), 0)"

section \<open>Lattice::add_registered_hopping\<close>

definition index_neg :: "Index3D \<Rightarrow> Index3D" where
  "index_neg a = (case a of (x, y, z) \<Rightarrow> (- x, - y, - z))"

text \<open>
  Modelled from the spec: \<open>Sublattice::add_hopping\<close> is defined in \<open>Lattice.cpp\<close>, which is not
  among the sources at hand; only its calls in \<open>test_system.cpp\<close> are. It appends a Hopping
  record to the sublattice's list. That a second hopping with the same offset to the same
  sublattice throws is what the test case \<open>Sublattice\<close> requires.
\<close>

definition Sublattice_add_hopping ::
  "Index3D \<Rightarrow> int \<Rightarrow> int \<Rightarrow> bool \<Rightarrow> Sublattice \<Rightarrow> error + Sublattice" where
  "Sublattice_add_hopping relative to_sub hopping_id is_conj s =
     (if \<exists>h\<in>set (hoppings s). relative_index h = relative \<and> to_sublattice h = to_sub
      then Inl (logic_error ''The specified hopping already exists.'')
      else Inr (s\<lparr>hoppings := hoppings s @
                  [\<lparr>relative_index = relative, to_sublattice = to_sub,
                    hop_id = hopping_id, is_conjugate = is_conj\<rparr>]\<rparr>))"

text \<open>
  Modelled from the spec: \<open>Lattice::add_registered_hopping\<close> is defined in \<open>Lattice.cpp\<close>, which
  is not among the sources at hand. It fails if \<open>from\<close> or \<open>to\<close> is out of range, if
  \<open>hopping_id\<close> is out of range, or if the offset is zero and \<open>from = to\<close>. Otherwise it
  records the forward relation first, in the list of sublattice \<open>from\<close>, and adds the mirror
  with the negated offset to the list of sublattice \<open>to\<close> only if the two sublattices or
  the two offsets differ.
\<close>

definition add_registered_hopping ::
  "Index3D \<Rightarrow> int \<Rightarrow> int \<Rightarrow> int \<Rightarrow> Lattice \<Rightarrow> error + Lattice" where
  "add_registered_hopping relative from_sub to_sub hopping_id l =
     (if from_sub < 0 \<or> int (length (sublattices l)) \<le> from_sub \<or>
         to_sub < 0 \<or> int (length (sublattices l)) \<le> to_sub
      then Inl (logic_error ''The specified sublattice does not exist.'')
      else if hopping_id < 0 \<or> int (length (hopping_energies l)) \<le> hopping_id
      then Inl (logic_error ''The specified hopping does not exist.'')
      else if relative = (0, 0, 0) \<and> from_sub = to_sub
      then Inl (logic_error ''Hoppings from/to the same sublattice must have a non-zero relative index.'')
      else
        (case Sublattice_add_hopping relative to_sub hopping_id False
                (sublattices l ! nat from_sub) of
           Inl e \<Rightarrow> Inl e
         | Inr s1 \<Rightarrow>
             (if from_sub \<noteq> to_sub \<or> index_neg relative \<noteq> relative then
                (case Sublattice_add_hopping (index_neg relative) from_sub hopping_id True
                        ((sublattices l)[nat from_sub := s1] ! nat to_sub) of
                   Inl e \<Rightarrow> Inl e
                 | Inr s2 \<Rightarrow>
                     Inr (l\<lparr>sublattices := (sublattices l)[nat from_sub := s1, nat to_sub := s2]\<rparr>))
              else Inr (l\<lparr>sublattices := (sublattices l)[nat from_sub := s1]\<rparr>))))"

text \<open>The forward and the mirrored record of a registered hopping.\<close>

definition forward_hopping :: "Index3D \<Rightarrow> int \<Rightarrow> int \<Rightarrow> Hopping" where
  "forward_hopping relative to_sub hopping_id =
     \<lparr>relative_index = relative, to_sublattice = to_sub, hop_id = hopping_id, is_conjugate = False\<rparr>"

definition mirrored_hopping :: "Index3D \<Rightarrow> int \<Rightarrow> int \<Rightarrow> Hopping" where
  "mirrored_hopping relative from_sub hopping_id =
     \<lparr>relative_index = index_neg relative, to_sublattice = from_sub, hop_id = hopping_id,
      is_conjugate = True\<rparr>"

text \<open>The lattice of the test section \<open>Add hoppings\<close>: sublattices A and B, one energy.\<close>

definition test_lattice :: Lattice where
  "test_lattice =
     \<lparr>vectors = [(1, 0, 0), (0, 1, 0)],
      sublattices = [\<lparr>offset = (0, 0, 0), hoppings = []\<rparr>, \<lparr>offset = (0, 0, 0), hoppings = []\<rparr>],
      hopping_energies = [1], min_neighbours = 1\<rparr>"


section \<open>Sparse hopping matrices\<close>

text \<open>
  A \<open>SparseMatrixX<hop_id>\<close>: its shape and the stored coefficients, each with its row and
  column. \<open>coeff\<close> reads \<open>0\<close> where nothing is stored, \<open>nonZeros\<close> counts what is stored.
\<close>

record SparseMatrixX =
  nrows :: nat
  ncols :: nat
  entries :: "((nat \<times> nat) \<times> int) list"

definition coeff :: "SparseMatrixX \<Rightarrow> nat \<Rightarrow> nat \<Rightarrow> int" where
  "coeff m i j = (case map_of (entries m) (i, j) of None \<Rightarrow> 0 | Some v \<Rightarrow> v)"

definition nonZeros :: "SparseMatrixX \<Rightarrow> nat" where
  "nonZeros m = length (entries m)"

text \<open>\<open>HoppingGenerator::Result\<close>: the \<open>from\<close> and \<open>to\<close> index arrays.\<close>

record Result =
  from_indices :: "nat list"
  to_indices :: "nat list"

text \<open>
  Modelled from the spec: the code that merges the edges of a hopping generator into
  \<open>System::hoppings\<close> is defined in \<open>System.cpp\<close>, which is not among the sources at hand. An
  edge is stored in the upper-triangular convention, from the lower-indexed endpoint; a
  duplicate or reversed edge collapses to the entry that is already stored (first writer
  wins).
\<close>

definition add_generated_edge :: "int \<Rightarrow> SparseMatrixX \<Rightarrow> nat \<times> nat \<Rightarrow> SparseMatrixX" where
  "add_generated_edge hopping_id m e =
     (let i = min (fst e) (snd e); j = max (fst e) (snd e)
      in if map_of (entries m) (i, j) \<noteq> None then m
         else m\<lparr>entries := entries m @ [((i, j), hopping_id)]\<rparr>)"

definition add_hopping_family :: "int \<Rightarrow> Result \<Rightarrow> SparseMatrixX \<Rightarrow> SparseMatrixX" where
  "add_hopping_family hopping_id r m =
     foldl (add_generated_edge hopping_id) m (zip (from_indices r) (to_indices r))"

text \<open>The position an edge is stored at: row the lower, column the higher endpoint.\<close>

definition stored_position :: "nat \<times> nat \<Rightarrow> nat \<times> nat" where
  "stored_position e = (min (fst e) (snd e), max (fst e) (snd e))"

text \<open>The hopping matrix of the two-site model of the test, before any generator.\<close>

definition no_hoppings :: SparseMatrixX where
  "no_hoppings = \<lparr>nrows = 2, ncols = 2, entries = []\<rparr>"


section \<open>nonzeros_per_row\<close>









section \<open>Modifier containers\<close>

text \<open>
  The containers hold \<open>std::shared_ptr<const Modifier>\<close> handles. \<open>std::find\<close> compares two
  handles with \<open>operator==\<close> of \<open>shared_ptr\<close>, which compares the stored addresses and never
  looks at the pointee; a handle is therefore modelled as the address it stores.
\<close>

type_synonym shared_ptr = nat

record SystemModifiers =
  state :: "shared_ptr list"
  position :: "shared_ptr list"

record HamiltonianModifiers =
  onsite :: "shared_ptr list"
  hopping :: "shared_ptr list"

definition add_unique_state :: "shared_ptr \<Rightarrow> SystemModifiers \<Rightarrow> bool \<times> SystemModifiers" where
  "add_unique_state m s =
     (if m \<notin> set (state s) then (True, s\<lparr>state := state s @ [m]\<rparr>) else (False, s))"

definition add_unique_position :: "shared_ptr \<Rightarrow> SystemModifiers \<Rightarrow> bool \<times> SystemModifiers" where
  "add_unique_position m s =
     (if m \<notin> set (position s) then (True, s\<lparr>position := position s @ [m]\<rparr>) else (False, s))"

definition add_unique_onsite :: "shared_ptr \<Rightarrow> HamiltonianModifiers \<Rightarrow> bool \<times> HamiltonianModifiers" where
  "add_unique_onsite m s =
     (if m \<notin> set (onsite s) then (True, s\<lparr>onsite := onsite s @ [m]\<rparr>) else (False, s))"

definition add_unique_hopping :: "shared_ptr \<Rightarrow> HamiltonianModifiers \<Rightarrow> bool \<times> HamiltonianModifiers" where
  "add_unique_hopping m s =
     (if m \<notin> set (hopping s) then (True, s\<lparr>hopping := hopping s @ [m]\<rparr>) else (False, s))"


section \<open>Properties of finalize\<close>

lemma finalize_loop_done:
  "\<not> i < n \<Longrightarrow> finalize_loop valid n i his c = (his, c)"
  by (subst finalize_loop.simps) simp

lemma finalize_loop_valid:
  "i < n \<Longrightarrow> valid ! i \<Longrightarrow>
     finalize_loop valid n i his c = finalize_loop valid n (Suc i) (his[i := c]) (c + 1)"
  by (subst finalize_loop.simps) simp

lemma finalize_loop_invalid:
  "i < n \<Longrightarrow> \<not> valid ! i \<Longrightarrow>
     finalize_loop valid n i his c = finalize_loop valid n (Suc i) his c"
  by (subst finalize_loop.simps) simp

lemma rank_below_0 [simp]: "rank_below valid 0 = 0"
  by (simp add: rank_below_def)

lemma rank_below_Suc:
  "rank_below valid (Suc k) = rank_below valid k + (if valid ! k then 1 else 0)"
  by (simp add: rank_below_def)

lemma rank_below_mono: "i \<le> j \<Longrightarrow> rank_below valid i \<le> rank_below valid j"
  by (induction j) (auto simp: rank_below_Suc le_Suc_eq)

lemma rank_below_strict:
  assumes "i < j" "valid ! i"
  shows "rank_below valid i < rank_below valid j"
proof -
  have "rank_below valid (Suc i) \<le> rank_below valid j"
    using assms(1) by (intro rank_below_mono) simp
  with assms(2) show ?thesis by (simp add: rank_below_Suc)
qed

lemma rank_below_length: "rank_below valid (length valid) = length (filter id valid)"
proof -
  have "filter id valid = filter id (map (nth valid) [0..<length valid])"
    by (simp add: map_nth)
  also have "\<dots> = map (nth valid) (filter (\<lambda>j. valid ! j) [0..<length valid])"
    by (simp add: filter_map comp_def)
  finally show ?thesis by (simp add: rank_below_def)
qed

lemma rank_below_image:
  "rank_below valid ` {i. i < k \<and> valid ! i} = {0..<rank_below valid k}"
proof (induction k)
  case 0
  show ?case by simp
next
  case (Suc k)
  have split: "{i. i < Suc k \<and> valid ! i} = {i. i < k \<and> valid ! i} \<union> (if valid ! k then {k} else {})"
    by (auto simp: less_Suc_eq)
  show ?case
    unfolding split image_Un Suc.IH
    by (auto simp: rank_below_Suc)
qed

text \<open>
  The loop invariant: on entry at \<open>i\<close> the count is the rank of \<open>i\<close>, the entries below
  \<open>i\<close> are final and the entries from \<open>i\<close> on still hold \<open>-1\<close>.
\<close>

definition finalized_upto :: "bool list \<Rightarrow> nat \<Rightarrow> nat \<Rightarrow> int list \<Rightarrow> bool" where
  "finalized_upto valid n i his \<longleftrightarrow>
     length his = n \<and>
     (\<forall>k<n. his ! k = (if k < i \<and> valid ! k then int (rank_below valid k) else - 1))"

lemma finalize_loop_correct:
  assumes "finalized_upto valid n i his" "c = int (rank_below valid i)" "i \<le> n"
  shows "finalized_upto valid n n (fst (finalize_loop valid n i his c)) \<and>
         snd (finalize_loop valid n i his c) = int (rank_below valid n)"
  using assms
proof (induction valid n i his c rule: finalize_loop.induct)
  case (1 valid n i his c)
  show ?case
  proof (cases "i < n")
    case False
    with "1.prems" show ?thesis
      by (simp add: finalize_loop_done)
  next
    case True
    show ?thesis
    proof (cases "valid ! i")
      case v: True
      have inv: "finalized_upto valid n (Suc i) (his[i := c])"
        using "1.prems" True v
        by (auto simp: finalized_upto_def nth_list_update less_Suc_eq)
      have cnt: "c + 1 = int (rank_below valid (Suc i))"
        using "1.prems"(2) v by (simp add: rank_below_Suc)
      from "1.IH"(1) [OF True v inv cnt] True v show ?thesis
        by (simp add: finalize_loop_valid)
    next
      case v: False
      have inv: "finalized_upto valid n (Suc i) his"
        using "1.prems" True v
        by (auto simp: finalized_upto_def less_Suc_eq)
      have cnt: "c = int (rank_below valid (Suc i))"
        using "1.prems"(2) v by (simp add: rank_below_Suc)
      from "1.IH"(2) [OF True v inv cnt] True v show ?thesis
        by (simp add: finalize_loop_invalid)
    qed
  qed
qed

lemma finalize_result:
  assumes "length (is_valid f) = num_sites f"
  shows "snd (finalize f) = int (length (filter id (is_valid f)))"
    and "length (hamiltonian_indices (fst (finalize f))) = num_sites f"
    and "i < num_sites f \<Longrightarrow>
           hamiltonian_indices (fst (finalize f)) ! i =
             (if is_valid f ! i then int (rank_below (is_valid f) i) else - 1)"
    and "is_valid (fst (finalize f)) = is_valid f"
proof -
  let ?n = "num_sites f"
  let ?r = "finalize_loop (is_valid f) ?n 0 (replicate ?n (- 1)) 0"
  have init: "finalized_upto (is_valid f) ?n 0 (replicate ?n (- 1))"
    by (simp add: finalized_upto_def)
  have fin: "finalized_upto (is_valid f) ?n ?n (fst ?r) \<and> snd ?r = int (rank_below (is_valid f) ?n)"
    by (rule finalize_loop_correct [OF init]) simp_all
  have fst_eq: "hamiltonian_indices (fst (finalize f)) = fst ?r"
    and snd_eq: "snd (finalize f) = snd ?r"
    and val_eq: "is_valid (fst (finalize f)) = is_valid f"
    by (simp_all add: finalize_def Let_def split_beta)
  show "snd (finalize f) = int (length (filter id (is_valid f)))"
    using fin assms rank_below_length [of "is_valid f"] by (simp add: snd_eq)
  show "length (hamiltonian_indices (fst (finalize f))) = num_sites f"
    using fin by (simp add: fst_eq finalized_upto_def)
  show "hamiltonian_indices (fst (finalize f)) ! i =
          (if is_valid f ! i then int (rank_below (is_valid f) i) else - 1)"
    if "i < num_sites f"
    using fin that by (simp add: fst_eq finalized_upto_def)
  show "is_valid (fst (finalize f)) = is_valid f"
    by (rule val_eq)
qed

text \<open>
  Claim C1. For every Foundation whose \<open>is_valid\<close> array has \<open>num_sites\<close> entries,
  \<open>finalize()\<close> returns the number of sites with \<open>is_valid\<close> true. Afterwards
  \<open>hamiltonian_indices\<close> has \<open>num_sites\<close> entries; entry \<open>i\<close> is non-negative exactly when
  site \<open>i\<close> is valid; invalid sites hold \<open>-1\<close>; a valid site holds the number of valid sites
  before it; the values at valid sites are exactly \<open>0, \<dots>, count - 1\<close>; and they
  increase strictly with the raw site index (so the restriction to valid sites is an
  order-preserving bijection onto \<open>{0, \<dots>, count - 1}\<close>).
\<close>

theorem finalize_compacts_valid_sites:
  assumes "length (is_valid f) = num_sites f"
  shows "snd (finalize f) = int (length (filter id (is_valid f)))
       \<and> length (hamiltonian_indices (fst (finalize f))) = num_sites f
       \<and> (\<forall>i<num_sites f.
            (0 \<le> hamiltonian_indices (fst (finalize f)) ! i \<longleftrightarrow> is_valid f ! i)
          \<and> (\<not> is_valid f ! i \<longrightarrow> hamiltonian_indices (fst (finalize f)) ! i = - 1)
          \<and> (is_valid f ! i \<longrightarrow>
               hamiltonian_indices (fst (finalize f)) ! i = int (rank_below (is_valid f) i)))
       \<and> (\<lambda>i. hamiltonian_indices (fst (finalize f)) ! i) ` {i. i < num_sites f \<and> is_valid f ! i}
           = {k. 0 \<le> k \<and> k < snd (finalize f)}
       \<and> (\<forall>i<num_sites f. \<forall>j<num_sites f.
            i < j \<and> is_valid f ! i \<and> is_valid f ! j \<longrightarrow>
              hamiltonian_indices (fst (finalize f)) ! i < hamiltonian_indices (fst (finalize f)) ! j)
       \<and> inj_on (\<lambda>i. hamiltonian_indices (fst (finalize f)) ! i)
           {i. i < num_sites f \<and> is_valid f ! i}"
proof -
  let ?v = "is_valid f"
  let ?h = "\<lambda>i. hamiltonian_indices (fst (finalize f)) ! i"
  let ?V = "{i. i < num_sites f \<and> ?v ! i}"
  note R = finalize_result [OF assms]
  have cnt: "snd (finalize f) = int (rank_below ?v (num_sites f))"
    using R(1) assms rank_below_length [of ?v] by simp
  have hv: "?h i = int (rank_below ?v i)" if "i \<in> ?V" for i
    using that R(3) by simp
  have img: "?h ` ?V = {k. 0 \<le> k \<and> k < snd (finalize f)}"
  proof -
    have "?h ` ?V = (\<lambda>i. int (rank_below ?v i)) ` ?V"
      by (rule image_cong) (simp_all add: hv)
    also have "\<dots> = int ` (rank_below ?v ` ?V)"
      by (simp add: image_image)
    also have "\<dots> = int ` {0..<rank_below ?v (num_sites f)}"
      by (simp only: rank_below_image)
    also have "\<dots> = {k. 0 \<le> k \<and> k < snd (finalize f)}"
      unfolding cnt by (auto simp: image_iff intro: nonneg_int_cases)
    finally show ?thesis .
  qed
  have mono: "?h i < ?h j" if "i < num_sites f" "j < num_sites f" "i < j" "?v ! i" "?v ! j" for i j
    using that R(3) [of i] R(3) [of j] rank_below_strict [of i j ?v] by simp
  have inj: "inj_on ?h ?V"
  proof (rule inj_onI)
    fix x y assume xy: "x \<in> ?V" "y \<in> ?V" "?h x = ?h y"
    show "x = y"
    proof (rule ccontr)
      assume "x \<noteq> y"
      then consider "x < y" | "y < x" by linarith
      then show False
        using mono [of x y] mono [of y x] xy by cases auto
    qed
  qed
  show ?thesis
    using R(1) R(2) R(3) img mono inj by simp
qed

theorem finalize_compacts_valid_sites_witness:
  "snd (finalize \<lparr>lattice = \<lparr>vectors = [], sublattices = [], hopping_energies = [], min_neighbours = 1\<rparr>,
        size = (2, 2, 1), size_n = 1, num_sites = 4,
        is_valid = [True, False, True, True], neighbour_count = [0, 0, 0, 0],
        hamiltonian_indices = []\<rparr>) = 3
   \<and> hamiltonian_indices (fst (finalize \<lparr>lattice = \<lparr>vectors = [], sublattices = [], hopping_energies = [], min_neighbours = 1\<rparr>,
        size = (2, 2, 1), size_n = 1, num_sites = 4,
        is_valid = [True, False, True, True], neighbour_count = [0, 0, 0, 0],
        hamiltonian_indices = []\<rparr>)) ! 2 = 1"
proof -
  let ?f = "\<lparr>lattice = \<lparr>vectors = [], sublattices = [], hopping_energies = [], min_neighbours = 1\<rparr>,
        size = (2, 2, 1), size_n = 1, num_sites = 4,
        is_valid = [True, False, True, True], neighbour_count = [0, 0, 0, 0],
        hamiltonian_indices = []\<rparr>"
  have len: "length (is_valid ?f) = num_sites ?f" by simp
  have r2: "rank_below [True, False, True, True] 2 = 1"
    by (simp add: rank_below_def upt_rec [of 0] upt_rec [of 1])
  from finalize_compacts_valid_sites [OF len]
  have "snd (finalize ?f) = int (length (filter id (is_valid ?f)))"
    and "\<forall>i<num_sites ?f. is_valid ?f ! i \<longrightarrow>
            hamiltonian_indices (fst (finalize ?f)) ! i = int (rank_below (is_valid ?f) i)"
    by blast+
  then show ?thesis using r2 by simp
qed


section \<open>Properties of init_neighbor_count\<close>

lemma foldl_decrement:
  "foldl (\<lambda>n h. if P h then n - 1 else n) (c :: 16 word) hs = c - word_of_nat (length (filter P hs))"
  by (induction hs arbitrary: c) simp_all

lemma site_neighbor_count_eq:
  "site_neighbor_count f site =
     word_of_nat (length (site_hoppings f site)) - word_of_nat (length (edge_hoppings f site))"
  by (simp add: site_neighbor_count_def site_hoppings_def edge_hoppings_def Let_def foldl_decrement)

text \<open>The loop only ever changes \<open>neighbour_count\<close>, so the per-site count does not depend
  on the iteration it is computed in.\<close>

lemma site_neighbor_count_cong:
  "lattice g = lattice f \<Longrightarrow> size g = size f \<Longrightarrow> site_neighbor_count g site = site_neighbor_count f site"
  by (simp add: site_neighbor_count_def)

lemma init_site_fields [simp]:
  "lattice (init_site g site) = lattice g"
  "size (init_site g site) = size g"
  "length (neighbour_count (init_site g site)) = length (neighbour_count g)"
  by (simp_all add: init_site_def)

lemma init_loop_fields:
  "lattice (foldl init_site g0 ss) = lattice g0
 \<and> size (foldl init_site g0 ss) = size g0
 \<and> length (neighbour_count (foldl init_site g0 ss)) = length (neighbour_count g0)"
  by (induction ss arbitrary: g0) simp_all

lemma init_loop_nth:
  assumes "k < length (neighbour_count g0)"
  shows "neighbour_count (foldl init_site g0 (map (site_at layout) [i..<j])) ! k
         = (if i \<le> k \<and> k < j then site_neighbor_count g0 (site_at layout k) else neighbour_count g0 ! k)"
  using assms
proof (induction "j - i" arbitrary: j)
  case 0
  then show ?case by auto
next
  case (Suc d)
  then obtain j' where j: "j = Suc j'" "i \<le> j'" "d = j' - i"
    by (cases j) auto
  let ?g = "foldl init_site g0 (map (site_at layout) [i..<j'])"
  have fields: "lattice ?g = lattice g0" "size ?g = size g0"
    "length (neighbour_count ?g) = length (neighbour_count g0)"
    using init_loop_fields [of g0 "map (site_at layout) [i..<j']"] by simp_all
  have IH: "neighbour_count ?g ! k
      = (if i \<le> k \<and> k < j' then site_neighbor_count g0 (site_at layout k) else neighbour_count g0 ! k)"
    by (rule Suc.hyps(1) [OF j(3) Suc.prems])
  have cong: "site_neighbor_count ?g (site_at layout j') = site_neighbor_count g0 (site_at layout j')"
    by (rule site_neighbor_count_cong [OF fields(1,2)])
  have unfold: "foldl init_site g0 (map (site_at layout) [i..<j]) = init_site ?g (site_at layout j')"
    using j by simp
  have upd: "neighbour_count (init_site ?g (site_at layout j'))
      = (neighbour_count ?g)[j' := site_neighbor_count g0 (site_at layout j')]"
    by (simp add: init_site_def cong) (simp add: site_at_def)
  show ?case
  proof (cases "k = j'")
    case True
    with Suc.prems fields(3) j show ?thesis
      unfolding unfold upd by simp
  next
    case False
    with IH j show ?thesis
      unfolding unfold upd by auto
  qed
qed

lemma init_neighbor_count_nth:
  assumes "k < num_sites f"
  shows "neighbour_count (init_neighbor_count layout f) ! k
           = word_of_nat (length (site_hoppings f (site_at layout k)))
             - word_of_nat (length (edge_hoppings f (site_at layout k)))"
proof -
  let ?f0 = "f\<lparr>neighbour_count := replicate (num_sites f) 0\<rparr>"
  have "neighbour_count (init_neighbor_count layout f) ! k = site_neighbor_count ?f0 (site_at layout k)"
    unfolding init_neighbor_count_def sites_def
    using init_loop_nth [of k ?f0 layout 0 "num_sites f"] assms by simp
  also have "\<dots> = site_neighbor_count f (site_at layout k)"
    by (rule site_neighbor_count_cong) simp_all
  finally show ?thesis by (simp add: site_neighbor_count_eq)
qed

lemma sint_small_count:
  assumes "n < 2 ^ 15"
  shows "sint (word_of_nat n :: 16 word) = int n"
proof -
  have "int n < 2 ^ 15"
    using assms by (metis of_nat_less_iff of_nat_numeral of_nat_power)
  then have "signed_take_bit 15 (int n) = int n"
    by (intro signed_take_bit_int_eq_self) simp_all
  then show ?thesis
    by (simp add: signed_of_nat)
qed

text \<open>
  Claim C3, as amended. For every site \<open>k\<close> of a Foundation, the count that
  \<open>init_neighbor_count\<close> stores is, in the 16-bit arithmetic of \<open>int16_t\<close>, the length of the
  sublattice's hopping list minus one for each hopping whose target unit cell lies outside
  \<open>[0, size)\<close> in some dimension; it is that difference as an integer whenever the hopping
  list has fewer than \<open>2^15\<close> entries.
\<close>

theorem init_neighbor_count_edges:
  assumes "k < num_sites f"
  shows "neighbour_count (init_neighbor_count layout f) ! k
           = word_of_nat (length (site_hoppings f (site_at layout k)))
             - word_of_nat (length (edge_hoppings f (site_at layout k)))
       \<and> (length (site_hoppings f (site_at layout k)) < 2 ^ 15 \<longrightarrow>
            sint (neighbour_count (init_neighbor_count layout f) ! k)
              = int (length (site_hoppings f (site_at layout k)))
                - int (length (edge_hoppings f (site_at layout k))))"
proof (intro conjI impI)
  let ?hs = "site_hoppings f (site_at layout k)"
  let ?es = "edge_hoppings f (site_at layout k)"
  show eq: "neighbour_count (init_neighbor_count layout f) ! k
              = word_of_nat (length ?hs) - word_of_nat (length ?es)"
    by (rule init_neighbor_count_nth [OF assms])
  assume small: "length ?hs < 2 ^ 15"
  have le: "length ?es \<le> length ?hs"
    by (simp add: edge_hoppings_def)
  then have "(word_of_nat (length ?hs) - word_of_nat (length ?es) :: 16 word)
               = word_of_nat (length ?hs - length ?es)"
    by simp
  moreover have "length ?hs - length ?es < 2 ^ 15"
    using small by simp
  ultimately have "sint (neighbour_count (init_neighbor_count layout f) ! k)
                     = int (length ?hs - length ?es)"
    using eq sint_small_count by simp
  with le show "sint (neighbour_count (init_neighbor_count layout f) ! k)
                  = int (length ?hs) - int (length ?es)"
    by simp
qed

text \<open>
  A two-cell chain with one sublattice and the hoppings \<open>(1,0,0)\<close> and \<open>(-1,0,0)\<close>: the
  left site loses the hopping to the left, the right site the hopping to the right.
\<close>

theorem init_neighbor_count_edges_witness:
  "sint (neighbour_count
      (init_neighbor_count (\<lambda>i. ((int i, 0, 0), 0))
         \<lparr>lattice = \<lparr>vectors = [(1, 0, 0)],
                     sublattices = [\<lparr>offset = (0, 0, 0),
                        hoppings = [\<lparr>relative_index = (1, 0, 0), to_sublattice = 0, hop_id = 0, is_conjugate = False\<rparr>,
                                    \<lparr>relative_index = (- 1, 0, 0), to_sublattice = 0, hop_id = 0, is_conjugate = True\<rparr>]\<rparr>],
                     hopping_energies = [1], min_neighbours = 1\<rparr>,
          size = (2, 1, 1), size_n = 1, num_sites = 2,
          is_valid = [True, True], neighbour_count = [], hamiltonian_indices = []\<rparr>) ! 1) = 1"
proof -
  let ?f = "\<lparr>lattice = \<lparr>vectors = [(1, 0, 0)],
                     sublattices = [\<lparr>offset = (0, 0, 0),
                        hoppings = [\<lparr>relative_index = (1, 0, 0), to_sublattice = 0, hop_id = 0, is_conjugate = False\<rparr>,
                                    \<lparr>relative_index = (- 1, 0, 0), to_sublattice = 0, hop_id = 0, is_conjugate = True\<rparr>]\<rparr>],
                     hopping_energies = [1], min_neighbours = 1\<rparr>,
          size = (2, 1, 1), size_n = 1, num_sites = 2,
          is_valid = [True, True], neighbour_count = [], hamiltonian_indices = []\<rparr>"
  let ?layout = "\<lambda>i::nat. ((int i, 0::int, 0::int), 0::nat)"
  have k: "1 < num_sites ?f" by simp
  have hs: "length (site_hoppings ?f (site_at ?layout 1)) = 2"
    by (simp add: site_hoppings_def site_at_def)
  have es: "length (edge_hoppings ?f (site_at ?layout 1)) = 1"
    by (simp add: edge_hoppings_def site_hoppings_def site_at_def out_of_bounds_def index_add_def)
  have small: "length (site_hoppings ?f (site_at ?layout 1)) < 2 ^ 15"
    unfolding hs by simp
  from init_neighbor_count_edges [OF k, of ?layout] small
  have "sint (neighbour_count (init_neighbor_count ?layout ?f) ! 1)
          = int (length (site_hoppings ?f (site_at ?layout 1)))
            - int (length (edge_hoppings ?f (site_at ?layout 1)))"
    by blast
  then show ?thesis unfolding hs es by simp
qed

text \<open>
  The claim as it is written (the count is the integer difference, for every Foundation)
  fails once a site has \<open>2^15\<close> hoppings that stay inside the Foundation: the first site of
  the long-range chain has \<open>32768\<close> hoppings, none of them an edge hopping, and its count
  is \<open>-32768\<close>.
\<close>

theorem init_neighbor_count_counterexample:
  "sint (neighbour_count (init_neighbor_count chain_layout long_range_foundation) ! 0) = - 32768
 \<and> int (length (site_hoppings long_range_foundation (site_at chain_layout 0)))
     - int (length (edge_hoppings long_range_foundation (site_at chain_layout 0))) = 32768"
proof -
  let ?s = "site_at chain_layout 0"
  have hs: "site_hoppings long_range_foundation ?s
      = map (\<lambda>k. \<lparr>relative_index = (int k, 0, 0), to_sublattice = 1,
                    hop_id = 0, is_conjugate = False\<rparr>) [0..<32768]"
    by (simp add: site_hoppings_def long_range_foundation_def long_range_lattice_def
        site_at_def chain_layout_def)
  have len: "length (site_hoppings long_range_foundation ?s) = 32768"
    unfolding hs by simp
  have es: "edge_hoppings long_range_foundation ?s = []"
    unfolding edge_hoppings_def hs
    by (simp add: filter_empty_conv long_range_foundation_def site_at_def chain_layout_def
        out_of_bounds_def index_add_def)
  have k: "0 < num_sites long_range_foundation"
    by (simp add: long_range_foundation_def)
  have "neighbour_count (init_neighbor_count chain_layout long_range_foundation) ! 0
          = (word_of_nat 32768 :: 16 word)"
    using init_neighbor_count_nth [OF k, of chain_layout] by (simp add: len es)
  then have "sint (neighbour_count (init_neighbor_count chain_layout long_range_foundation) ! 0) = - 32768"
    by simp
  then show ?thesis by (simp add: len es)
qed

section \<open>Properties of trim_edges\<close>

lemma preserved_refl: "well_formed nb f \<Longrightarrow> preserved nb f f"
  by (simp add: preserved_def)

lemma preserved_trans: "preserved nb f g \<Longrightarrow> preserved nb g h \<Longrightarrow> preserved nb f h"
  by (auto simp: preserved_def)

lemma finite_valid_sites [simp]: "finite (valid_sites f)"
  by (simp add: valid_sites_def)

lemma card_valid_sites_le: "card (valid_sites f) \<le> num_sites f"
proof -
  have "valid_sites f \<subseteq> {..<num_sites f}" by (auto simp: valid_sites_def)
  then have "card (valid_sites f) \<le> card {..<num_sites f}" by (intro card_mono) simp_all
  then show ?thesis by simp
qed

lemma preserved_card: "preserved nb f f' \<Longrightarrow> card (valid_sites f') \<le> card (valid_sites f)"
  by (simp add: preserved_def card_mono)

lemma set_count_preserved:
  "well_formed nb f \<Longrightarrow> preserved nb f (set_neighbor_count f s c)"
  by (simp add: preserved_def well_formed_def set_neighbor_count_def valid_sites_def)

lemma set_count_zero_pending:
  "well_formed nb f \<Longrightarrow> s < num_sites f \<Longrightarrow> pending (set_neighbor_count f s 0) = pending f - {s}"
  by (auto simp: pending_def well_formed_def set_neighbor_count_def nth_list_update)

lemma decrement_preserved:
  "well_formed nb f \<Longrightarrow> preserved nb f (decrement f x)"
  by (simp add: decrement_def set_count_preserved)

lemma decrement_valid_sites [simp]: "valid_sites (decrement f x) = valid_sites f"
  by (simp add: decrement_def set_neighbor_count_def valid_sites_def)

lemma decrement_pending:
  assumes "site_is_valid f x"
  shows "pending (decrement f x) = pending f"
proof -
  have "(neighbour_count f)[x := c] ! i = neighbour_count f ! i" if "\<not> is_valid f ! i" for i c
    using that assms by (intro nth_list_update_neq) (auto simp: site_is_valid_def)
  then show ?thesis
    by (auto simp: pending_def decrement_def set_neighbor_count_def)
qed

lemma decrement_is_valid [simp]: "site_is_valid (decrement f x) y = site_is_valid f y"
  by (simp add: decrement_def set_neighbor_count_def site_is_valid_def)

lemma invalidate_sub:
  "i < length vs \<Longrightarrow> vs[x := False] ! i \<Longrightarrow> vs ! i"
  by (cases "i = x") simp_all

lemma invalidate_preserved:
  assumes "well_formed nb f"
  shows "preserved nb f (set_valid f x False)"
proof -
  have "valid_sites (set_valid f x False) \<subseteq> valid_sites f"
    using assms invalidate_sub [of _ "is_valid f" x]
    by (auto simp: well_formed_def set_valid_def valid_sites_def)
  moreover have "well_formed nb (set_valid f x False)"
    using assms by (simp add: well_formed_def set_valid_def)
  ultimately show ?thesis
    by (simp add: preserved_def set_valid_def)
qed

lemma invalidate_valid_sites:
  "well_formed nb f \<Longrightarrow> x < num_sites f \<Longrightarrow> valid_sites (set_valid f x False) = valid_sites f - {x}"
  by (auto simp: well_formed_def set_valid_def valid_sites_def nth_list_update)

lemma invalidate_pending:
  "well_formed nb f \<Longrightarrow> pending (set_valid f x False) \<subseteq> pending f \<union> {x}"
  by (auto simp: well_formed_def set_valid_def pending_def nth_list_update split: if_splits)

lemma invalidate_not_valid:
  "well_formed nb f \<Longrightarrow> x < num_sites f \<Longrightarrow> \<not> site_is_valid (set_valid f x False) x"
  by (simp add: well_formed_def set_valid_def site_is_valid_def)

lemma invalidate_card:
  assumes "well_formed nb f" "x < num_sites f" "site_is_valid f x"
  shows "card (valid_sites (set_valid f x False)) < card (valid_sites f)"
proof -
  have "x \<in> valid_sites f"
    using assms by (simp add: valid_sites_def site_is_valid_def)
  then have "card (valid_sites f - {x}) < card (valid_sites f)"
    by (intro card_Diff1_less) simp_all
  then show ?thesis
    using assms by (simp add: invalidate_valid_sites)
qed

text \<open>
  With more fuel than valid sites the recursion returns; it keeps the state well formed
  and leaves no new pending site behind, and the site it was called for is not pending
  any more.
\<close>

lemma clear_returns:
  "well_formed nb f \<Longrightarrow> s < num_sites f \<Longrightarrow> \<not> site_is_valid f s \<Longrightarrow>
     card (valid_sites f) < n \<Longrightarrow>
     \<exists>f'. clear_neighbors nb n f s = Some f' \<and> preserved nb f f' \<and> pending f' \<subseteq> pending f - {s}"
  "well_formed nb f \<Longrightarrow> \<forall>x\<in>set xs. x < num_sites f \<Longrightarrow> card (valid_sites f) \<le> n \<Longrightarrow>
     \<exists>f'. clear_each nb n f xs = Some f' \<and> preserved nb f f' \<and> pending f' \<subseteq> pending f"
proof (induction nb n f s and nb n f xs rule: clear_neighbors_clear_each.induct)
  case (1 nb f s)
  then show ?case by simp
next
  case (2 nb n f s)
  show ?case
  proof (cases "get_neighbor_count f s = 0")
    case True
    then have "s \<notin> pending f"
      by (simp add: pending_def get_neighbor_count_def)
    with True "2.prems"(1) show ?thesis
      by (auto simp: preserved_refl)
  next
    case False
    have nbs: "\<forall>x\<in>set (nb s). x < num_sites f"
      using "2.prems"(1,2) by (simp add: well_formed_def)
    have fuel: "card (valid_sites f) \<le> n"
      using "2.prems"(4) by simp
    from "2.IH" [OF False "2.prems"(1) nbs fuel]
    obtain f' where f': "clear_each nb n f (nb s) = Some f'" "preserved nb f f'" "pending f' \<subseteq> pending f"
      by blast
    have wf': "well_formed nb f'" and ns: "num_sites f' = num_sites f"
      using f'(2) by (simp_all add: preserved_def)
    have "preserved nb f (set_neighbor_count f' s 0)"
      using f'(2) set_count_preserved [OF wf'] by (rule preserved_trans)
    moreover have "pending (set_neighbor_count f' s 0) \<subseteq> pending f - {s}"
      using set_count_zero_pending [OF wf', of s] "2.prems"(2) ns f'(3) by auto
    ultimately show ?thesis
      using False f'(1) by simp
  qed
next
  case (3 nb n f)
  then show ?case by (simp add: preserved_refl)
next
  case (4 nb n f x xs)
  have xr: "x < num_sites f" and xsr: "\<forall>y\<in>set xs. y < num_sites f"
    using "4.prems"(2) by simp_all
  show ?case
  proof (cases "site_is_valid f x")
    case False
    from "4.IH"(1) [OF _ "4.prems"(1) xsr "4.prems"(3)] False show ?thesis
      by simp
  next
    case True
    let ?d = "decrement f x"
    have pd: "preserved nb f ?d"
      by (rule decrement_preserved [OF "4.prems"(1)])
    then have wfd: "well_formed nb ?d" and nsd: "num_sites ?d = num_sites f"
      by (simp_all add: preserved_def)
    show ?thesis
    proof (cases "below_minimum ?d x")
      case below: False
      have xsd: "\<forall>y\<in>set xs. y < num_sites ?d" using xsr nsd by simp
      have fuel: "card (valid_sites ?d) \<le> n" using "4.prems"(3) by simp
      from "4.IH"(4) [OF _ below wfd xsd fuel] True
      obtain f' where f': "clear_each nb n ?d xs = Some f'" "preserved nb ?d f'" "pending f' \<subseteq> pending ?d"
        by auto
      have "preserved nb f f'" using pd f'(2) by (rule preserved_trans)
      moreover have "pending f' \<subseteq> pending f"
        using f'(3) decrement_pending [OF True] by simp
      ultimately show ?thesis
        using True below f'(1) by simp
    next
      case below: True
      let ?i = "set_valid ?d x False"
      have xd: "x < num_sites ?d" using xr nsd by simp
      have vd: "site_is_valid ?d x" using True by simp
      have pi: "preserved nb ?d ?i"
        by (rule invalidate_preserved [OF wfd])
      then have wfi: "well_formed nb ?i" and nsi: "num_sites ?i = num_sites f"
        using nsd by (simp_all add: preserved_def)
      have xi: "x < num_sites ?i" using xr nsi by simp
      have nv: "\<not> site_is_valid ?i x"
        by (rule invalidate_not_valid [OF wfd xd])
      have "card (valid_sites ?i) < card (valid_sites ?d)"
        by (rule invalidate_card [OF wfd xd vd])
      then have fuel: "card (valid_sites ?i) < n"
        using "4.prems"(3) by simp
      from "4.IH"(2) [OF _ below wfi xi nv fuel] True
      obtain f1 where f1: "clear_neighbors nb n ?i x = Some f1" "preserved nb ?i f1"
        "pending f1 \<subseteq> pending ?i - {x}"
        by auto
      have p1: "preserved nb f f1"
        using pd pi f1(2) by (blast intro: preserved_trans)
      then have wf1: "well_formed nb f1" and ns1: "num_sites f1 = num_sites f"
        by (simp_all add: preserved_def)
      have pend1: "pending f1 \<subseteq> pending f"
        using f1(3) invalidate_pending [OF wfd, of x] decrement_pending [OF True] by auto
      have xs1: "\<forall>y\<in>set xs. y < num_sites f1" using xsr ns1 by simp
      have fuel1: "card (valid_sites f1) \<le> n"
        using preserved_card [OF p1] "4.prems"(3) by simp
      from "4.IH"(3) [OF _ below f1(1) wf1 xs1 fuel1] True
      obtain f' where f': "clear_each nb n f1 xs = Some f'" "preserved nb f1 f'" "pending f' \<subseteq> pending f1"
        by auto
      have "preserved nb f f'" using p1 f'(2) by (rule preserved_trans)
      moreover have "pending f' \<subseteq> pending f" using f'(3) pend1 by simp
      ultimately show ?thesis
        using True below f1(1) f'(1) by simp
    qed
  qed
qed

lemma trim_loop_returns:
  "well_formed nb f \<Longrightarrow> \<forall>s\<in>set ss. s < num_sites f \<Longrightarrow> card (valid_sites f) < n \<Longrightarrow>
     \<exists>f'. trim_loop nb n f ss = Some f' \<and> preserved nb f f' \<and> pending f' \<subseteq> pending f - set ss"
proof (induction ss arbitrary: f)
  case Nil
  then show ?case by (simp add: preserved_refl)
next
  case (Cons s ss)
  have sr: "s < num_sites f" and ssr: "\<forall>y\<in>set ss. y < num_sites f"
    using Cons.prems(2) by simp_all
  show ?case
  proof (cases "site_is_valid f s")
    case True
    then have "s \<notin> pending f"
      by (simp add: pending_def site_is_valid_def)
    with Cons.IH [OF Cons.prems(1) ssr Cons.prems(3)] True show ?thesis
      by auto
  next
    case False
    from clear_returns(1) [OF Cons.prems(1) sr False Cons.prems(3)]
    obtain f1 where f1: "clear_neighbors nb n f s = Some f1" "preserved nb f f1"
      "pending f1 \<subseteq> pending f - {s}"
      by blast
    have wf1: "well_formed nb f1" and ns1: "num_sites f1 = num_sites f"
      using f1(2) by (simp_all add: preserved_def)
    have ss1: "\<forall>y\<in>set ss. y < num_sites f1" using ssr ns1 by simp
    have fuel1: "card (valid_sites f1) < n"
      using preserved_card [OF f1(2)] Cons.prems(3) by simp
    from Cons.IH [OF wf1 ss1 fuel1]
    obtain f' where f': "trim_loop nb n f1 ss = Some f'" "preserved nb f1 f'"
      "pending f' \<subseteq> pending f1 - set ss"
      by blast
    have "preserved nb f f'" using f1(2) f'(2) by (rule preserved_trans)
    moreover have "pending f' \<subseteq> pending f - set (s # ss)"
      using f'(3) f1(3) by auto
    ultimately show ?thesis
      using False f1(1) f'(1) by simp
  qed
qed

text \<open>Once no site is pending, a pass changes nothing.\<close>

lemma trim_loop_settled:
  "pending f = {} \<Longrightarrow> \<forall>s\<in>set ss. s < num_sites f \<Longrightarrow> 0 < n \<Longrightarrow> trim_loop nb n f ss = Some f"
proof (induction ss)
  case Nil
  show ?case by simp
next
  case (Cons s ss)
  obtain m where n: "n = Suc m" using Cons.prems(3) by (cases n) simp_all
  have "site_is_valid f s \<or> get_neighbor_count f s = 0"
    using Cons.prems(1,2) by (auto simp: pending_def site_is_valid_def get_neighbor_count_def)
  with Cons show ?case
    by (auto simp: n)
qed

text \<open>
  Claim C2. For every well-formed Foundation state and neighbour structure, the
  trimming pass returns (given more fuel than there are sites), and running it a second
  time on its result returns that result unchanged: in particular the same \<open>is_valid\<close>
  array.
\<close>

theorem trim_edges_idempotent:
  assumes "well_formed nb f" and "num_sites f < n"
  shows "\<exists>f1 f2. trim_edges nb n f = Some f1 \<and> trim_edges nb n f1 = Some f2
           \<and> is_valid f2 = is_valid f1 \<and> f2 = f1"
proof -
  have fuel: "card (valid_sites f) < n"
    using card_valid_sites_le [of f] assms(2) by simp
  have range: "\<forall>s\<in>set [0..<num_sites f]. s < num_sites f" by simp
  from trim_loop_returns [OF assms(1) range fuel]
  obtain f1 where f1: "trim_loop nb n f [0..<num_sites f] = Some f1" "preserved nb f f1"
    "pending f1 \<subseteq> pending f - set [0..<num_sites f]"
    by blast
  have ns1: "num_sites f1 = num_sites f"
    using f1(2) by (simp add: preserved_def)
  have "pending f \<subseteq> set [0..<num_sites f]"
    by (auto simp: pending_def)
  with f1(3) have settled: "pending f1 = {}" by auto
  have range1: "\<forall>s\<in>set [0..<num_sites f1]. s < num_sites f1" by simp
  have pos: "0 < n" using assms(2) by simp
  have "trim_loop nb n f1 [0..<num_sites f1] = Some f1"
    by (rule trim_loop_settled [OF settled range1 pos])
  with f1(1) show ?thesis
    by (simp add: trim_edges_def)
qed

text \<open>On the chain the invalid left end erodes both other sites.\<close>

lemma trim_edges_chain3:
  "trim_edges chain3_neighbours 4 chain3
     = Some (chain3\<lparr>is_valid := [False, False, False], neighbour_count := [0, 0, 0]\<rparr>)"
  by (simp add: trim_edges_def chain3_def chain3_neighbours_def upt_conv_Cons numeral_eq_Suc
      site_is_valid_def get_neighbor_count_def set_neighbor_count_def set_valid_def
      decrement_def below_minimum_def)

theorem trim_edges_idempotent_witness:
  "trim_edges chain3_neighbours 4 chain3
     = Some (chain3\<lparr>is_valid := [False, False, False], neighbour_count := [0, 0, 0]\<rparr>)
 \<and> trim_edges chain3_neighbours 4 (chain3\<lparr>is_valid := [False, False, False], neighbour_count := [0, 0, 0]\<rparr>)
     = Some (chain3\<lparr>is_valid := [False, False, False], neighbour_count := [0, 0, 0]\<rparr>)"
proof -
  have wf: "well_formed chain3_neighbours chain3"
    by (simp add: well_formed_def chain3_def chain3_neighbours_def)
  have fuel: "num_sites chain3 < 4"
    by (simp add: chain3_def)
  from trim_edges_idempotent [OF wf fuel]
  obtain f1 f2 where "trim_edges chain3_neighbours 4 chain3 = Some f1"
    "trim_edges chain3_neighbours 4 f1 = Some f2" "f2 = f1"
    by blast
  then show ?thesis
    by (simp add: trim_edges_chain3)
qed

section \<open>Properties of make_sublattice_ids\<close>

lemma sub_id_cast_small:
  assumes "0 < w" "n < 2 ^ (w - 1)"
  shows "sub_id_cast w n = int n"
proof -
  have p: "(2::int) ^ w = 2 * 2 ^ (w - 1)"
    using assms(1) by (cases w) simp_all
  have "int n < 2 ^ (w - 1)"
    using assms(2) by (metis of_nat_less_iff of_nat_numeral of_nat_power)
  then have "(int n + 2 ^ (w - 1)) mod 2 ^ w = int n + 2 ^ (w - 1)"
    unfolding p by (intro mod_pos_pos_trivial) simp_all
  then show ?thesis by (simp add: sub_id_cast_def)
qed

lemma fill_ids_run:
  assumes "0 \<le> sid" "sid \<le> m" "i + nat (m - sid) \<le> length ids"
  shows "\<exists>ids'. fill_ids m sid i ids = Some (ids', i + nat (m - sid))
           \<and> length ids' = length ids
           \<and> (\<forall>k<length ids. ids' ! k =
                 (if i \<le> k \<and> k < i + nat (m - sid) then sid + int (k - i) else ids ! k))"
  using assms
proof (induction m sid i ids rule: fill_ids.induct)
  case (1 m sid i ids)
  show ?case
  proof (cases "sid < m")
    case False
    with "1.prems" have "sid = m" by simp
    then show ?thesis by (subst fill_ids.simps) simp
  next
    case True
    with "1.prems" have il: "i < length ids" by linarith
    have step: "fill_ids m sid i ids = fill_ids m (sid + 1) (Suc i) (ids[i := sid])"
      using True il by (subst fill_ids.simps) simp
    have n: "Suc i + nat (m - (sid + 1)) = i + nat (m - sid)"
      using True by linarith
    from "1.IH" [OF True il] "1.prems" True n
    obtain ids' where r: "fill_ids m (sid + 1) (Suc i) (ids[i := sid]) = Some (ids', i + nat (m - sid))"
      "length ids' = length ids"
      "\<forall>k<length ids. ids' ! k =
          (if Suc i \<le> k \<and> k < i + nat (m - sid) then sid + 1 + int (k - Suc i) else ids[i := sid] ! k)"
      by (auto simp: n)
    have "ids' ! k = (if i \<le> k \<and> k < i + nat (m - sid) then sid + int (k - i) else ids ! k)"
      if "k < length ids" for k
    proof (cases "k = i")
      case True
      with r(3) that \<open>sid < m\<close> show ?thesis by simp
    next
      case False
      with r(3) that show ?thesis by (auto simp: of_nat_diff)
    qed
    with r(1,2) step show ?thesis by simp
  qed
qed

lemma sublattice_ids_loop_cells:
  assumes "0 < ns" "length ids = c * ns" "q \<le> c" "\<forall>k<q * ns. ids ! k = int (k mod ns)"
  shows "\<exists>ids'. sublattice_ids_loop (c * ns) (int ns) (q * ns) ids = Some ids'
           \<and> length ids' = c * ns \<and> (\<forall>k<c * ns. ids' ! k = int (k mod ns))"
  using assms
proof (induction "c - q" arbitrary: q ids)
  case 0
  then have "q = c" by simp
  with "0.prems" show ?case
    by (subst sublattice_ids_loop.simps) simp
next
  case (Suc d)
  then have qc: "q < c" by simp
  then have lt: "q * ns < c * ns" using Suc.prems(1) by simp
  have "Suc q * ns \<le> c * ns" using qc by (simp add: Suc_leI del: mult_Suc)
  then have fits: "q * ns + nat (int ns - 0) \<le> length ids"
    using Suc.prems(2) by simp
  from fill_ids_run [OF _ _ fits]
  obtain ids1 where r: "fill_ids (int ns) 0 (q * ns) ids = Some (ids1, q * ns + ns)"
    "length ids1 = length ids"
    "\<forall>k<length ids. ids1 ! k = (if q * ns \<le> k \<and> k < q * ns + ns then int (k - q * ns) else ids ! k)"
    by auto
  have inv: "\<forall>k<Suc q * ns. ids1 ! k = int (k mod ns)"
  proof (intro allI impI)
    fix k assume k: "k < Suc q * ns"
    then have kl: "k < length ids" using \<open>Suc q * ns \<le> c * ns\<close> Suc.prems(2) by simp
    show "ids1 ! k = int (k mod ns)"
    proof (cases "q * ns \<le> k")
      case True
      then obtain j where j: "k = q * ns + j" using le_Suc_ex by blast
      with k have "j < ns" by simp
      with j r(3) kl True k show ?thesis by simp
    next
      case False
      with r(3) kl Suc.prems(4) show ?thesis by simp
    qed
  qed
  have d: "d = c - Suc q" using Suc.hyps(2) by simp
  have len1: "length ids1 = c * ns" using r(2) Suc.prems(2) by simp
  from Suc.hyps(1) [OF d Suc.prems(1) len1 _ inv] qc
  obtain ids' where "sublattice_ids_loop (c * ns) (int ns) (Suc q * ns) ids1 = Some ids'"
    "length ids' = c * ns" "\<forall>k<c * ns. ids' ! k = int (k mod ns)"
    by auto
  moreover have "sublattice_ids_loop (c * ns) (int ns) (q * ns) ids
      = sublattice_ids_loop (c * ns) (int ns) (Suc q * ns) ids1"
    using lt r(1) by (subst sublattice_ids_loop.simps) (simp add: add.commute)
  ultimately show ?case by simp
qed

text \<open>
  Claim C10. For a Foundation whose \<open>num_sites\<close> is the unit-cell count times the number of
  sublattices, over a lattice whose sublattice count fits the signed id type \<open>sub_id\<close>,
  \<open>make_sublattice_ids()\<close> returns an array of length \<open>num_sites\<close> whose element \<open>i\<close> is
  \<open>i\<close> modulo the number of sublattices: the ids cycle \<open>0, 1, \<dots>, n - 1\<close>.
\<close>

theorem make_sublattice_ids_cycles:
  assumes "num_sites f = cells * length (sublattices (lattice f))"
    and "0 < w" and "length (sublattices (lattice f)) < 2 ^ (w - 1)"
  shows "make_sublattice_ids w f =
           Some (map (\<lambda>i. int (i mod length (sublattices (lattice f)))) [0..<num_sites f])"
proof (cases "length (sublattices (lattice f)) = 0")
  case True
  with assms(1) have "num_sites f = 0" by simp
  then show ?thesis
    unfolding make_sublattice_ids_def by (subst sublattice_ids_loop.simps) simp
next
  case False
  let ?ns = "length (sublattices (lattice f))"
  have pos: "0 < ?ns" using False by simp
  have len: "length (replicate (num_sites f) (0::int)) = cells * ?ns"
    using assms(1) by simp
  from sublattice_ids_loop_cells [OF pos len, of 0]
  obtain ids' where r: "sublattice_ids_loop (cells * ?ns) (int ?ns) 0 (replicate (num_sites f) 0) = Some ids'"
    "length ids' = cells * ?ns" "\<forall>k<cells * ?ns. ids' ! k = int (k mod ?ns)"
    by auto
  have "ids' = map (\<lambda>i. int (i mod ?ns)) [0..<num_sites f]"
    using r(2,3) assms(1) by (intro nth_equalityI) simp_all
  with r(1) assms show ?thesis
    by (simp add: make_sublattice_ids_def sub_id_cast_small)
qed

theorem make_sublattice_ids_cycles_witness:
  "make_sublattice_ids 8
     \<lparr>lattice = \<lparr>vectors = [(1, 0, 0), (0, 1, 0)],
                 sublattices = [\<lparr>offset = (0, 0, 0), hoppings = []\<rparr>,
                                \<lparr>offset = (1/2, 1/2, 0), hoppings = []\<rparr>],
                 hopping_energies = [], min_neighbours = 1\<rparr>,
      size = (3, 1, 1), size_n = 2, num_sites = 6,
      is_valid = [True, True, True, True, True, True], neighbour_count = [],
      hamiltonian_indices = []\<rparr> = Some [0, 1, 0, 1, 0, 1]"
proof -
  let ?f = "\<lparr>lattice = \<lparr>vectors = [(1, 0, 0), (0, 1, 0)],
                 sublattices = [\<lparr>offset = (0, 0, 0), hoppings = []\<rparr>,
                                \<lparr>offset = (1/2, 1/2, 0), hoppings = []\<rparr>],
                 hopping_energies = [], min_neighbours = 1\<rparr>,
      size = (3, 1, 1), size_n = 2, num_sites = 6,
      is_valid = [True, True, True, True, True, True], neighbour_count = [],
      hamiltonian_indices = []\<rparr>"
  have h1: "num_sites ?f = 3 * length (sublattices (lattice ?f))" by simp
  have h2: "0 < (8::nat)" by simp
  have h3: "length (sublattices (lattice ?f)) < 2 ^ (8 - 1)" by simp
  have e: "map (\<lambda>i. int (i mod length (sublattices (lattice ?f)))) [0..<num_sites ?f]
             = [0, 1, 0, 1, 0, 1]"
  proof -
    have l: "length (sublattices (lattice ?f)) = 2" and n: "num_sites ?f = 6" by simp_all
    have "map (\<lambda>i. int (i mod 2)) [0..<6] = [0, 1, 0, 1, 0, 1]" by code_simp
    then show ?thesis unfolding l n .
  qed
  show ?thesis
    using make_sublattice_ids_cycles [OF h1 h2 h3] unfolding e .
qed

section \<open>Properties of uref_cast\<close>

text \<open>
  Claim C5, as amended. \<open>uref_cast<T>(u)\<close> throws exactly when the tag of \<open>u\<close> differs from
  the tag of \<open>T\<close>'s scalar. When the tags match it returns a view over the same data
  pointer; for a matrix type \<open>T\<close> the view has the rows and columns of \<open>u\<close>; for a vector
  type \<open>T\<close> it has \<open>cols\<close> coefficients when \<open>u\<close> is row-major and \<open>rows\<close> coefficients
  otherwise, laid out as the vector type says.
\<close>

theorem uref_cast_checks_tag:
  "(isl (uref_cast D u) \<longleftrightarrow> type u \<noteq> get_type (Scalar D))
 \<and> (type u = get_type (Scalar D) \<longrightarrow>
      uref_cast D u = Inr (make_map D u)
    \<and> map_data (make_map D u) = data u
    \<and> map_scalar (make_map D u) = Scalar D
    \<and> (\<not> IsVectorAtCompileTime D \<longrightarrow>
         map_rows (make_map D u) = rows u \<and> map_cols (make_map D u) = cols u)
    \<and> (IsVectorAtCompileTime D \<and> ColsAtCompileTime D = 1 \<longrightarrow>
         map_rows (make_map D u) = (if is_row_major u then cols u else rows u)
       \<and> map_cols (make_map D u) = 1)
    \<and> (IsVectorAtCompileTime D \<and> ColsAtCompileTime D \<noteq> 1 \<longrightarrow>
         map_rows (make_map D u) = 1
       \<and> map_cols (make_map D u) = (if is_row_major u then cols u else rows u)))"
  by (simp add: uref_cast_def make_map_def Map_vector_def Map_matrix_def)

theorem uref_cast_checks_tag_witness:
  "uref_cast ArrayXXf float_2x3
     = Inr \<lparr>map_scalar = Float_t, map_data = 4096, map_rows = 2, map_cols = 3\<rparr>
 \<and> isl (uref_cast \<lparr>Scalar = Double_t, RowsAtCompileTime = Dynamic, ColsAtCompileTime = Dynamic\<rparr>
          float_2x3)"
  using uref_cast_checks_tag [of ArrayXXf float_2x3]
    uref_cast_checks_tag [of "\<lparr>Scalar = Double_t, RowsAtCompileTime = Dynamic, ColsAtCompileTime = Dynamic\<rparr>" float_2x3]
  by (simp add: ArrayXXf_def float_2x3_def make_map_def Map_matrix_def IsVectorAtCompileTime_def
      Dynamic_def)

text \<open>
  The claim as it is written promises the dimensions of \<open>u\<close> whenever the tags match.
  Reading the \<open>2 \<times> 3\<close> float view back as the vector type \<open>ArrayXf\<close> passes the tag check and
  yields a \<open>2 \<times> 1\<close> view.
\<close>

theorem uref_cast_counterexample:
  "type float_2x3 = get_type (Scalar ArrayXf)
 \<and> uref_cast ArrayXf float_2x3
     = Inr \<lparr>map_scalar = Float_t, map_data = 4096, map_rows = 2, map_cols = 1\<rparr>
 \<and> cols float_2x3 = 3"
  by (simp add: uref_cast_def make_map_def Map_vector_def ArrayXf_def float_2x3_def
      IsVectorAtCompileTime_def)

section \<open>Properties of find_bounds and of the Shape-mode constructor\<close>

lemma le3_refl [simp]: "le3 v v"
  by (cases v) (simp add: le3_def)

lemma le3_trans: "le3 u v \<Longrightarrow> le3 v w \<Longrightarrow> le3 u w"
  by (cases u, cases v, cases w) (auto simp: le3_def)

lemma select_less_le: "le3 (select_less v b) v" "le3 (select_less v b) b"
  by (cases v, cases b, simp add: le3_def select_less_def)+

lemma select_greater_ge: "le3 v (select_greater v b)" "le3 b (select_greater v b)"
  by (cases v, cases b, simp add: le3_def select_greater_def)+

text \<open>An error of the loop is an error of the solve at one of the vertices.\<close>

lemma bounds_loop_error:
  "bounds_loop solve l bounds ps = Inl e \<Longrightarrow> \<exists>p\<in>set ps. solved_vertex solve l p = Inl e"
  by (induction ps arbitrary: bounds) (auto split: sum.splits)

text \<open>
  When the solve returns at every vertex the loop returns bounds; they only widen, and
  they enclose every solved vertex.
\<close>

lemma bounds_loop_encloses:
  assumes "\<forall>p\<in>set ps. \<not> isl (solved_vertex solve l p)"
  shows "\<exists>lo hi. bounds_loop solve l (lo0, hi0) ps = Inr (lo, hi) \<and> le3 lo lo0 \<and> le3 hi0 hi
           \<and> (\<forall>p\<in>set ps. \<exists>v. solved_vertex solve l p = Inr v \<and> le3 lo v \<and> le3 v hi)"
  using assms
proof (induction ps arbitrary: lo0 hi0)
  case Nil
  show ?case by simp
next
  case (Cons p ps)
  from Cons.prems obtain v where v: "solved_vertex solve l p = Inr v"
    by (cases "solved_vertex solve l p") auto
  have rest: "\<forall>q\<in>set ps. \<not> isl (solved_vertex solve l q)"
    using Cons.prems by simp
  from Cons.IH [OF rest, of "select_less v lo0" "select_greater v hi0"]
  obtain lo hi where r:
    "bounds_loop solve l (select_less v lo0, select_greater v hi0) ps = Inr (lo, hi)"
    "le3 lo (select_less v lo0)" "le3 (select_greater v hi0) hi"
    "\<forall>q\<in>set ps. \<exists>w. solved_vertex solve l q = Inr w \<and> le3 lo w \<and> le3 w hi"
    by blast
  have lo: "le3 lo lo0" "le3 lo v"
    using r(2) select_less_le(1) [of v lo0] select_less_le(2) [of v lo0]
    by (blast intro: le3_trans)+
  have hi: "le3 hi0 hi" "le3 v hi"
    using r(3) select_greater_ge(1) [of v hi0] select_greater_ge(2) [of hi0 v]
    by (blast intro: le3_trans)+
  have run: "bounds_loop solve l (lo0, hi0) (p # ps) = Inr (lo, hi)"
    using v r(1) by simp
  have "\<exists>w. solved_vertex solve l q = Inr w \<and> le3 lo w \<and> le3 w hi" if "q \<in> set (p # ps)" for q
  proof (cases "q = p")
    case True
    with v lo(2) hi(2) show ?thesis by blast
  next
    case False
    with that have "q \<in> set ps" by simp
    with r(4) show ?thesis by blast
  qed
  with run lo(1) hi(1) show ?case by blast
qed

lemma find_bounds_error:
  "find_bounds solve l shape = Inl e \<Longrightarrow> \<exists>p\<in>set (vertices shape). solved_vertex solve l p = Inl e"
  by (auto simp: find_bounds_def split: sum.splits dest: bounds_loop_error)

lemma find_bounds_returns:
  assumes "\<forall>p\<in>set (vertices shape). \<not> isl (solved_vertex solve l p)"
  shows "\<exists>lo hi. find_bounds solve l shape
                    = Inr (to_Index3D (shift_head (length (vectors l)) (- 1) lo),
                           to_Index3D (shift_head (length (vectors l)) 1 hi))
           \<and> (\<forall>p\<in>set (vertices shape). \<exists>v. solved_vertex solve l p = Inr v \<and> le3 lo v \<and> le3 v hi)"
proof -
  from bounds_loop_encloses [OF assms, of "(INT_MAX, INT_MAX, INT_MAX)" "(INT_MIN, INT_MIN, INT_MIN)"]
  obtain lo hi where r:
    "bounds_loop solve l ((INT_MAX, INT_MAX, INT_MAX), (INT_MIN, INT_MIN, INT_MIN)) (vertices shape)
       = Inr (lo, hi)"
    "\<forall>p\<in>set (vertices shape). \<exists>v. solved_vertex solve l p = Inr v \<and> le3 lo v \<and> le3 v hi"
    by blast
  have "find_bounds solve l shape
          = Inr (to_Index3D (shift_head (length (vectors l)) (- 1) lo),
                 to_Index3D (shift_head (length (vectors l)) 1 hi))"
    using r(1) by (simp add: find_bounds_def)
  with r(2) show ?thesis by blast
qed

text \<open>The trimming pass leaves the extent of the Foundation alone.\<close>

lemma clear_keeps_size:
  "clear_neighbors nb n f s = Some f' \<Longrightarrow> size f' = size f \<and> size_n f' = size_n f"
  "clear_each nb n f xs = Some f' \<Longrightarrow> size f' = size f \<and> size_n f' = size_n f"
proof (induction nb n f s and nb n f xs arbitrary: f' and f' rule: clear_neighbors_clear_each.induct)
  case (1 nb f s)
  then show ?case by simp
next
  case (2 nb n f s)
  then show ?case
    by (auto simp: set_neighbor_count_def split: if_splits option.splits)
next
  case (3 nb n f)
  then show ?case by simp
next
  case (4 nb n f x xs)
  have d: "size (decrement f x) = size f" "size_n (decrement f x) = size_n f"
    "size (set_valid (decrement f x) x False) = size f"
    "size_n (set_valid (decrement f x) x False) = size_n f"
    by (simp_all add: decrement_def set_neighbor_count_def set_valid_def)
  show ?case
  proof (cases "site_is_valid f x")
    case False
    with "4.IH"(1) "4.prems" show ?thesis by simp
  next
    case True
    show ?thesis
    proof (cases "below_minimum (decrement f x) x")
      case below: False
      with "4.IH"(4) "4.prems" True d show ?thesis by simp
    next
      case below: True
      with "4.prems" True obtain f1 where f1:
        "clear_neighbors nb n (set_valid (decrement f x) x False) x = Some f1"
        "clear_each nb n f1 xs = Some f'"
        by (auto split: option.splits)
      from "4.IH"(2) [OF _ below f1(1)] True d
      have "size f1 = size f \<and> size_n f1 = size_n f" by simp
      moreover from "4.IH"(3) [OF _ below f1(1) f1(2)] True
      have "size f' = size f1 \<and> size_n f' = size_n f1" by simp
      ultimately show ?thesis by simp
    qed
  qed
qed

lemma trim_loop_keeps_size:
  "trim_loop nb n f ss = Some f' \<Longrightarrow> size f' = size f \<and> size_n f' = size_n f"
proof (induction ss arbitrary: f)
  case Nil
  then show ?case by simp
next
  case (Cons s ss)
  show ?case
  proof (cases "site_is_valid f s")
    case True
    with Cons show ?thesis by simp
  next
    case False
    with Cons.prems obtain f1 where f1: "clear_neighbors nb n f s = Some f1"
      "trim_loop nb n f1 ss = Some f'"
      by (auto split: option.splits)
    from clear_keeps_size(1) [OF f1(1)] Cons.IH [OF f1(2)] show ?thesis by simp
  qed
qed

lemma init_loop_frame:
  "is_valid (foldl init_site g0 ss) = is_valid g0
 \<and> num_sites (foldl init_site g0 ss) = num_sites g0
 \<and> size_n (foldl init_site g0 ss) = size_n g0"
  by (induction ss arbitrary: g0) (simp_all add: init_site_def)

lemma init_positions_length: "length (init_positions layout f origin) = num_sites f"
proof -
  have "length (foldl (\<lambda>ps site. ps[idx site := g site]) ps0 ss) = length ps0"
    for g :: "Site \<Rightarrow> Cartesian" and ps0 ss
    by (induction ss arbitrary: ps0) simp_all
  then show ?thesis by (simp add: init_positions_def)
qed

text \<open>
  Once \<open>find_bounds\<close> has returned, the constructor sizes the Foundation with its bounds
  and builds it.
\<close>

lemma Foundation_shape_constructs:
  assumes b: "find_bounds solve l shape = Inr b"
    and ns: "0 \<le> shape_num_sites l (box_size b)"
    and cont: "\<forall>ps. length (contains shape ps) = length ps"
    and nbs: "\<forall>s<nat (shape_num_sites l (box_size b)).
                \<forall>x\<in>set (nb s). x < nat (shape_num_sites l (box_size b))"
    and fuel: "nat (shape_num_sites l (box_size b)) < fuel"
  shows "\<exists>f. Foundation_shape solve layout nb fuel l shape = Some (Inr f)
           \<and> size f = box_size b \<and> size_n f = length (sublattices l)
           \<and> num_sites f = nat (shape_num_sites l (box_size b)) \<and> lattice f = l"
proof -
  let ?n = "nat (shape_num_sites l (box_size b))"
  let ?f0 = "\<lparr>lattice = l, size = box_size b, size_n = length (sublattices l),
               num_sites = ?n, is_valid = [], neighbour_count = [], hamiltonian_indices = []\<rparr>"
  let ?ps = "init_positions layout ?f0 (add_lattice_vectors l (fst b) (shape_offset shape))"
  let ?f1 = "?f0\<lparr>is_valid := contains shape ?ps\<rparr>"
  let ?f2 = "init_neighbor_count layout ?f1"
  let ?g = "?f1\<lparr>neighbour_count := replicate (num_sites ?f1) 0\<rparr>"
  have f2: "?f2 = foldl init_site ?g (sites layout ?f1)"
    by (simp add: init_neighbor_count_def)
  have frame: "is_valid ?f2 = contains shape ?ps" "num_sites ?f2 = ?n"
    "size_n ?f2 = length (sublattices l)"
    unfolding f2 using init_loop_frame [of ?g "sites layout ?f1"] by simp_all
  have fields: "lattice ?f2 = l" "size ?f2 = box_size b" "length (neighbour_count ?f2) = ?n"
    unfolding f2 using init_loop_fields [of ?g "sites layout ?f1"] by simp_all
  have "length (contains shape ?ps) = ?n"
    using cont by (simp add: init_positions_length)
  then have wf: "well_formed nb ?f2"
    using frame fields nbs by (simp add: well_formed_def)
  have card: "card (valid_sites ?f2) < fuel"
    using card_valid_sites_le [of ?f2] frame(2) fuel by simp
  have range: "\<forall>s\<in>set [0..<num_sites ?f2]. s < num_sites ?f2" by simp
  from trim_loop_returns [OF wf range card]
  obtain f where f: "trim_loop nb fuel ?f2 [0..<num_sites ?f2] = Some f" "preserved nb ?f2 f"
    by blast
  have sz: "size f = size ?f2 \<and> size_n f = size_n ?f2"
    by (rule trim_loop_keeps_size [OF f(1)])
  have "Foundation_shape solve layout nb fuel l shape = map_option Inr (trim_edges nb fuel ?f2)"
    using b ns by (simp add: Foundation_shape_def Let_def)
  also have "\<dots> = Some (Inr f)"
    using f(1) by (simp add: trim_edges_def)
  finally have "Foundation_shape solve layout nb fuel l shape = Some (Inr f)" .
  moreover have "size f = box_size b" "size_n f = length (sublattices l)"
    using sz fields(2) frame(3) by simp_all
  moreover have "num_sites f = ?n" "lattice f = l"
    using f(2) frame(2) fields(1) by (simp_all add: preserved_def)
  ultimately show ?thesis by blast
qed

text \<open>
  Claim C9, as amended. When the bounding-box linear solve is degenerate, Shape-mode
  Foundation construction raises no GeometryDegeneracyError: nothing tests the lattice
  matrix. \<open>find_bounds\<close> fails only with an exception that the solve itself raises at a
  vertex; whenever the solve returns at every vertex, singular matrix or not, \<open>find_bounds\<close>
  returns bounds that enclose the solved vertices, padded by one in the first \<open>ndim\<close>
  directions, and the constructor proceeds with that bounding box: the Foundation it
  builds has the size \<open>upper - lower + 1\<close> and the number of sites that follows from it.
\<close>

theorem shape_construction_has_no_degeneracy_check:
  "(find_bounds solve l shape = Inl e \<longrightarrow>
      (\<exists>p\<in>set (vertices shape). solved_vertex solve l p = Inl e))
 \<and> ((\<forall>p\<in>set (vertices shape). \<not> isl (solved_vertex solve l p)) \<longrightarrow>
      (\<exists>lo hi. find_bounds solve l shape
                  = Inr (to_Index3D (shift_head (length (vectors l)) (- 1) lo),
                         to_Index3D (shift_head (length (vectors l)) 1 hi))
         \<and> (\<forall>p\<in>set (vertices shape).
               \<exists>v. solved_vertex solve l p = Inr v \<and> le3 lo v \<and> le3 v hi)))
 \<and> (find_bounds solve l shape = Inr b
      \<and> 0 \<le> shape_num_sites l (box_size b)
      \<and> (\<forall>ps. length (contains shape ps) = length ps)
      \<and> (\<forall>s<nat (shape_num_sites l (box_size b)).
            \<forall>x\<in>set (nb s). x < nat (shape_num_sites l (box_size b)))
      \<and> nat (shape_num_sites l (box_size b)) < fuel \<longrightarrow>
      (\<exists>f. Foundation_shape solve layout nb fuel l shape = Some (Inr f)
         \<and> size f = box_size b \<and> size_n f = length (sublattices l)
         \<and> num_sites f = nat (shape_num_sites l (box_size b)) \<and> lattice f = l))"
proof (intro conjI impI)
  assume "find_bounds solve l shape = Inl e"
  then show "\<exists>p\<in>set (vertices shape). solved_vertex solve l p = Inl e"
    by (rule find_bounds_error)
next
  assume "\<forall>p\<in>set (vertices shape). \<not> isl (solved_vertex solve l p)"
  then show "\<exists>lo hi. find_bounds solve l shape
                  = Inr (to_Index3D (shift_head (length (vectors l)) (- 1) lo),
                         to_Index3D (shift_head (length (vectors l)) 1 hi))
         \<and> (\<forall>p\<in>set (vertices shape).
               \<exists>v. solved_vertex solve l p = Inr v \<and> le3 lo v \<and> le3 v hi)"
    by (rule find_bounds_returns)
next
  assume "find_bounds solve l shape = Inr b
      \<and> 0 \<le> shape_num_sites l (box_size b)
      \<and> (\<forall>ps. length (contains shape ps) = length ps)
      \<and> (\<forall>s<nat (shape_num_sites l (box_size b)).
            \<forall>x\<in>set (nb s). x < nat (shape_num_sites l (box_size b)))
      \<and> nat (shape_num_sites l (box_size b)) < fuel"
  then show "\<exists>f. Foundation_shape solve layout nb fuel l shape = Some (Inr f)
         \<and> size f = box_size b \<and> size_n f = length (sublattices l)
         \<and> num_sites f = nat (shape_num_sites l (box_size b)) \<and> lattice f = l"
    using Foundation_shape_constructs [of solve l shape b nb fuel layout] by blast
qed

text \<open>The collinear lattice and the segment, evaluated.\<close>

lemma collinear_solved:
  "solved_vertex collinear_solve collinear_lattice (0, 0, 0) = Inr (0, 0, 0)"
  "solved_vertex collinear_solve collinear_lattice (4, 0, 0) = Inr (0, 2, 0)"
  by (simp_all add: solved_vertex_def collinear_solve_def collinear_lattice_def head_def
      assign_head_def cast_int_def)

lemma collinear_bounds:
  "find_bounds collinear_solve collinear_lattice segment = Inr ((- 1, - 1, 0), (1, 3, 0))"
  by (simp add: find_bounds_def segment_def collinear_solved select_less_def select_greater_def
      INT_MAX_def INT_MIN_def shift_head_def to_Index3D_def)
    (simp add: collinear_lattice_def)

lemma collinear_box:
  "box_size ((- 1, - 1, 0), (1, 3, 0)) = (3, 5, 1)"
  "shape_num_sites collinear_lattice (3, 5, 1) = 15"
  by (simp_all add: box_size_def shape_num_sites_def wrap32_def collinear_lattice_def
      signed_take_bit_int_eq_self)

theorem shape_construction_has_no_degeneracy_check_witness:
  "det2 (lattice_matrix collinear_lattice) = 0
 \<and> find_bounds collinear_solve collinear_lattice segment = Inr ((- 1, - 1, 0), (1, 3, 0))
 \<and> (\<exists>f. Foundation_shape collinear_solve grid_layout no_neighbours 16 collinear_lattice segment
           = Some (Inr f)
        \<and> size f = (3, 5, 1) \<and> num_sites f = 15)"
proof -
  have d: "det2 (lattice_matrix collinear_lattice) = 0"
    by (simp add: det2_def lattice_matrix_def collinear_lattice_def head_def)
  have h: "find_bounds collinear_solve collinear_lattice segment = Inr ((- 1, - 1, 0), (1, 3, 0))
      \<and> 0 \<le> shape_num_sites collinear_lattice (box_size ((- 1, - 1, 0), (1, 3, 0)))
      \<and> (\<forall>ps. length (contains segment ps) = length ps)
      \<and> (\<forall>s<nat (shape_num_sites collinear_lattice (box_size ((- 1, - 1, 0), (1, 3, 0)))).
            \<forall>x\<in>set (no_neighbours s).
               x < nat (shape_num_sites collinear_lattice (box_size ((- 1, - 1, 0), (1, 3, 0)))))
      \<and> nat (shape_num_sites collinear_lattice (box_size ((- 1, - 1, 0), (1, 3, 0)))) < 16"
    using collinear_bounds by (simp add: collinear_box no_neighbours_def) (simp add: segment_def)
  from shape_construction_has_no_degeneracy_check
         [of collinear_solve collinear_lattice segment "logic_error []" "((- 1, - 1, 0), (1, 3, 0))"
             no_neighbours 16 grid_layout] h
  have "\<exists>f. Foundation_shape collinear_solve grid_layout no_neighbours 16 collinear_lattice segment
           = Some (Inr f)
        \<and> size f = box_size ((- 1, - 1, 0), (1, 3, 0))
        \<and> num_sites f = nat (shape_num_sites collinear_lattice (box_size ((- 1, - 1, 0), (1, 3, 0))))"
    by blast
  then show ?thesis
    using d collinear_bounds by (simp add: collinear_box)
qed

text \<open>
  The claim as it is written fails on the collinear lattice: its matrix is singular, and
  \<open>find_bounds\<close> returns a bounding box, with which the constructor builds a Foundation of
  \<open>3 \<times> 5 \<times> 1\<close> unit cells, instead of an error.
\<close>

theorem find_bounds_counterexample:
  "det2 (lattice_matrix collinear_lattice) = 0
 \<and> find_bounds collinear_solve collinear_lattice segment = Inr ((- 1, - 1, 0), (1, 3, 0))
 \<and> map_option (map_sum id size)
      (Foundation_shape collinear_solve grid_layout no_neighbours 16 collinear_lattice segment)
     = Some (Inr (3, 5, 1))"
proof -
  have d: "det2 (lattice_matrix collinear_lattice) = 0"
    by (simp add: det2_def lattice_matrix_def collinear_lattice_def head_def)
  have ns: "0 \<le> shape_num_sites collinear_lattice (box_size ((- 1, - 1, 0), (1, 3, 0)))"
    by (simp add: collinear_box)
  have cont: "\<forall>ps. length (contains segment ps) = length ps"
    by (simp add: segment_def)
  have nbs: "\<forall>s<nat (shape_num_sites collinear_lattice (box_size ((- 1, - 1, 0), (1, 3, 0)))).
               \<forall>x\<in>set (no_neighbours s).
                  x < nat (shape_num_sites collinear_lattice (box_size ((- 1, - 1, 0), (1, 3, 0))))"
    by (simp add: no_neighbours_def)
  have fuel: "nat (shape_num_sites collinear_lattice (box_size ((- 1, - 1, 0), (1, 3, 0)))) < 16"
    by (simp add: collinear_box)
  from Foundation_shape_constructs [OF collinear_bounds ns cont nbs fuel, of grid_layout]
  obtain f where
    "Foundation_shape collinear_solve grid_layout no_neighbours 16 collinear_lattice segment
       = Some (Inr f)"
    "size f = box_size ((- 1, - 1, 0), (1, 3, 0))"
    by blast
  then show ?thesis
    using d collinear_bounds by (simp add: collinear_box)
qed

section \<open>Properties of add_registered_hopping\<close>

lemma add_hopping_appends:
  "Sublattice_add_hopping relative to_sub hopping_id c s = Inr s' \<Longrightarrow>
     hoppings s' = hoppings s @
       [\<lparr>relative_index = relative, to_sublattice = to_sub, hop_id = hopping_id, is_conjugate = c\<rparr>]"
  by (auto simp: Sublattice_add_hopping_def split: if_splits)

lemma index_neg_self: "index_neg relative = relative \<longleftrightarrow> relative = (0, 0, 0)"
  by (cases relative) (auto simp: index_neg_def)

lemma add_registered_hopping_success:
  assumes ok: "add_registered_hopping relative from_sub to_sub hopping_id l = Inr l'"
  shows "0 \<le> from_sub \<and> nat from_sub < length (sublattices l)
       \<and> 0 \<le> to_sub \<and> nat to_sub < length (sublattices l)
       \<and> (from_sub \<noteq> to_sub \<or> index_neg relative \<noteq> relative)
       \<and> (from_sub \<noteq> to_sub \<longrightarrow>
            hoppings (sublattices l' ! nat from_sub)
              = hoppings (sublattices l ! nat from_sub) @ [forward_hopping relative to_sub hopping_id]
          \<and> hoppings (sublattices l' ! nat to_sub)
              = hoppings (sublattices l ! nat to_sub) @ [mirrored_hopping relative from_sub hopping_id])
       \<and> (from_sub = to_sub \<longrightarrow>
            hoppings (sublattices l' ! nat from_sub)
              = hoppings (sublattices l ! nat from_sub)
                @ [forward_hopping relative to_sub hopping_id,
                   mirrored_hopping relative from_sub hopping_id])"
proof -
  have range: "0 \<le> from_sub" "nat from_sub < length (sublattices l)"
    "0 \<le> to_sub" "nat to_sub < length (sublattices l)"
    using ok by (auto simp: add_registered_hopping_def split: if_splits)
  have differ: "from_sub \<noteq> to_sub \<or> index_neg relative \<noteq> relative"
    using ok by (auto simp: add_registered_hopping_def index_neg_self split: if_splits)
  from ok range obtain s1 where s1:
    "Sublattice_add_hopping relative to_sub hopping_id False (sublattices l ! nat from_sub) = Inr s1"
    by (auto simp: add_registered_hopping_def split: if_splits sum.splits)
  from ok range differ s1 obtain s2 where s2:
    "Sublattice_add_hopping (index_neg relative) from_sub hopping_id True
       ((sublattices l)[nat from_sub := s1] ! nat to_sub) = Inr s2"
    and l': "l' = l\<lparr>sublattices := (sublattices l)[nat from_sub := s1, nat to_sub := s2]\<rparr>"
    by (auto simp: add_registered_hopping_def split: if_splits sum.splits)
  note h1 = add_hopping_appends [OF s1]
  note h2 = add_hopping_appends [OF s2]
  have neq: "nat from_sub \<noteq> nat to_sub" if "from_sub \<noteq> to_sub"
    using that range by simp
  have a: "hoppings (sublattices l' ! nat from_sub)
              = hoppings (sublattices l ! nat from_sub) @ [forward_hopping relative to_sub hopping_id]
          \<and> hoppings (sublattices l' ! nat to_sub)
              = hoppings (sublattices l ! nat to_sub) @ [mirrored_hopping relative from_sub hopping_id]"
    if "from_sub \<noteq> to_sub"
    using neq [OF that] range h1 h2
    by (simp add: l' forward_hopping_def mirrored_hopping_def)
  have b: "hoppings (sublattices l' ! nat from_sub)
              = hoppings (sublattices l ! nat from_sub)
                @ [forward_hopping relative to_sub hopping_id,
                   mirrored_hopping relative from_sub hopping_id]"
    if "from_sub = to_sub"
    using that range h1 h2
    by (simp add: l' forward_hopping_def mirrored_hopping_def)
  from range differ a b show ?thesis by blast
qed

text \<open>
  Claim C6. \<open>add_registered_hopping\<close> fails when \<open>from\<close> or \<open>to\<close> is outside the range of
  sublattice ids, when \<open>hopping_id\<close> is outside the range of registered energies, and when
  the offset is zero with \<open>from = to\<close>. When it succeeds, the list of sublattice \<open>from\<close> has
  gained the record with \<open>relative_index = \<Delta>\<close> and the list of sublattice \<open>to\<close> the mirrored
  record with \<open>relative_index = -\<Delta>\<close> (both at the end of the same list, forward first, when
  \<open>from = to\<close>); the mirror is added only when the sublattices or the offsets differ.
\<close>

theorem add_registered_hopping_contract:
  "(from_sub < 0 \<or> int (length (sublattices l)) \<le> from_sub \<or>
    to_sub < 0 \<or> int (length (sublattices l)) \<le> to_sub \<longrightarrow>
      isl (add_registered_hopping relative from_sub to_sub hopping_id l))
 \<and> (hopping_id < 0 \<or> int (length (hopping_energies l)) \<le> hopping_id \<longrightarrow>
      isl (add_registered_hopping relative from_sub to_sub hopping_id l))
 \<and> (relative = (0, 0, 0) \<and> from_sub = to_sub \<longrightarrow>
      isl (add_registered_hopping relative from_sub to_sub hopping_id l))
 \<and> (add_registered_hopping relative from_sub to_sub hopping_id l = Inr l' \<longrightarrow>
      relative_index (forward_hopping relative to_sub hopping_id) = relative
    \<and> relative_index (mirrored_hopping relative from_sub hopping_id) = index_neg relative
    \<and> (from_sub \<noteq> to_sub \<or> index_neg relative \<noteq> relative)
    \<and> (from_sub \<noteq> to_sub \<longrightarrow>
         hoppings (sublattices l' ! nat from_sub)
           = hoppings (sublattices l ! nat from_sub) @ [forward_hopping relative to_sub hopping_id]
       \<and> hoppings (sublattices l' ! nat to_sub)
           = hoppings (sublattices l ! nat to_sub) @ [mirrored_hopping relative from_sub hopping_id])
    \<and> (from_sub = to_sub \<longrightarrow>
         hoppings (sublattices l' ! nat from_sub)
           = hoppings (sublattices l ! nat from_sub)
             @ [forward_hopping relative to_sub hopping_id,
                mirrored_hopping relative from_sub hopping_id]))"
proof (intro conjI impI)
  assume "from_sub < 0 \<or> int (length (sublattices l)) \<le> from_sub \<or>
          to_sub < 0 \<or> int (length (sublattices l)) \<le> to_sub"
  then show "isl (add_registered_hopping relative from_sub to_sub hopping_id l)"
    by (simp add: add_registered_hopping_def)
next
  assume "hopping_id < 0 \<or> int (length (hopping_energies l)) \<le> hopping_id"
  then show "isl (add_registered_hopping relative from_sub to_sub hopping_id l)"
    by (simp add: add_registered_hopping_def)
next
  assume "relative = (0, 0, 0) \<and> from_sub = to_sub"
  then show "isl (add_registered_hopping relative from_sub to_sub hopping_id l)"
    by (simp add: add_registered_hopping_def)
next
  show "relative_index (forward_hopping relative to_sub hopping_id) = relative"
    by (simp add: forward_hopping_def)
  show "relative_index (mirrored_hopping relative from_sub hopping_id) = index_neg relative"
    by (simp add: mirrored_hopping_def)
next
  assume ok: "add_registered_hopping relative from_sub to_sub hopping_id l = Inr l'"
  note S = add_registered_hopping_success [OF ok]
  show "from_sub \<noteq> to_sub \<or> index_neg relative \<noteq> relative"
    using S by blast
  show "hoppings (sublattices l' ! nat from_sub)
          = hoppings (sublattices l ! nat from_sub) @ [forward_hopping relative to_sub hopping_id]"
    if "from_sub \<noteq> to_sub"
    using S that by blast
  show "hoppings (sublattices l' ! nat to_sub)
          = hoppings (sublattices l ! nat to_sub) @ [mirrored_hopping relative from_sub hopping_id]"
    if "from_sub \<noteq> to_sub"
    using S that by blast
  show "hoppings (sublattices l' ! nat from_sub)
          = hoppings (sublattices l ! nat from_sub)
            @ [forward_hopping relative to_sub hopping_id,
               mirrored_hopping relative from_sub hopping_id]"
    if "from_sub = to_sub"
    using S that by blast
qed

text \<open>
  The calls of the test section \<open>Add hoppings\<close>: the five that must throw, and the first
  one that succeeds, after which \<open>lattice[a].hoppings[1]\<close> is the mirror \<open>(-1, 0, 0)\<close>.
\<close>

theorem add_registered_hopping_contract_witness:
  "isl (add_registered_hopping (0, 0, 0) 0 0 0 test_lattice)
 \<and> isl (add_registered_hopping (0, 0, 0) (- 1) 0 0 test_lattice)
 \<and> isl (add_registered_hopping (0, 0, 0) 2 0 0 test_lattice)
 \<and> isl (add_registered_hopping (0, 0, 0) 0 0 (- 1) test_lattice)
 \<and> isl (add_registered_hopping (0, 0, 0) 0 0 1 test_lattice)
 \<and> add_registered_hopping (1, 0, 0) 0 0 0 test_lattice
     = Inr (test_lattice\<lparr>sublattices :=
              [\<lparr>offset = (0, 0, 0),
                hoppings = [forward_hopping (1, 0, 0) 0 0, mirrored_hopping (1, 0, 0) 0 0]\<rparr>,
               \<lparr>offset = (0, 0, 0), hoppings = []\<rparr>]\<rparr>)
 \<and> hoppings (sublattices (test_lattice\<lparr>sublattices :=
              [\<lparr>offset = (0, 0, 0),
                hoppings = [forward_hopping (1, 0, 0) 0 0, mirrored_hopping (1, 0, 0) 0 0]\<rparr>,
               \<lparr>offset = (0, 0, 0), hoppings = []\<rparr>]\<rparr>) ! nat 0)
     = hoppings (sublattices test_lattice ! nat 0)
       @ [forward_hopping (1, 0, 0) 0 0, mirrored_hopping (1, 0, 0) 0 0]
 \<and> relative_index (mirrored_hopping (1, 0, 0) 0 0) = (- 1, 0, 0)"
proof -
  let ?l' = "test_lattice\<lparr>sublattices :=
              [\<lparr>offset = (0, 0, 0),
                hoppings = [forward_hopping (1, 0, 0) 0 0, mirrored_hopping (1, 0, 0) 0 0]\<rparr>,
               \<lparr>offset = (0, 0, 0), hoppings = []\<rparr>]\<rparr>"
  have ok: "add_registered_hopping (1, 0, 0) 0 0 0 test_lattice = Inr ?l'"
    by (simp add: add_registered_hopping_def Sublattice_add_hopping_def test_lattice_def
        index_neg_def forward_hopping_def mirrored_hopping_def)
  have len: "length (sublattices test_lattice) = 2" "length (hopping_energies test_lattice) = 1"
    by (simp_all add: test_lattice_def)
  have neg: "index_neg (1, 0, 0) = (- 1, 0, 0)"
    by (simp add: index_neg_def)
  show ?thesis
    using add_registered_hopping_contract [of 0 test_lattice 0 "(0, 0, 0)" 0 ?l']
      add_registered_hopping_contract [of "- 1" test_lattice 0 "(0, 0, 0)" 0 ?l']
      add_registered_hopping_contract [of 2 test_lattice 0 "(0, 0, 0)" 0 ?l']
      add_registered_hopping_contract [of 0 test_lattice 0 "(0, 0, 0)" "- 1" ?l']
      add_registered_hopping_contract [of 0 test_lattice 0 "(0, 0, 0)" 1 ?l']
      add_registered_hopping_contract [of 0 test_lattice 0 "(1, 0, 0)" 0 ?l']
      ok len neg
    by simp
qed


section \<open>Properties of add_unique\<close>

text \<open>
  Claim C7. For each of the four modifier lists, \<open>add_unique(m)\<close> appends \<open>m\<close> and
  returns true when no handle with the same address is in the list, and otherwise leaves
  the container unchanged and returns false; a second \<open>add_unique\<close> of the same handle
  right after the first returns false and changes nothing, and the handle then occurs
  exactly once if it did not occur before.
\<close>

theorem add_unique_by_identity:
  "add_unique_state m s =
     (m \<notin> set (state s), if m \<in> set (state s) then s else s\<lparr>state := state s @ [m]\<rparr>)
 \<and> add_unique_position m s =
     (m \<notin> set (position s), if m \<in> set (position s) then s else s\<lparr>position := position s @ [m]\<rparr>)
 \<and> add_unique_onsite m h =
     (m \<notin> set (onsite h), if m \<in> set (onsite h) then h else h\<lparr>onsite := onsite h @ [m]\<rparr>)
 \<and> add_unique_hopping m h =
     (m \<notin> set (hopping h), if m \<in> set (hopping h) then h else h\<lparr>hopping := hopping h @ [m]\<rparr>)
 \<and> add_unique_state m (snd (add_unique_state m s)) = (False, snd (add_unique_state m s))
 \<and> add_unique_position m (snd (add_unique_position m s)) = (False, snd (add_unique_position m s))
 \<and> add_unique_onsite m (snd (add_unique_onsite m h)) = (False, snd (add_unique_onsite m h))
 \<and> add_unique_hopping m (snd (add_unique_hopping m h)) = (False, snd (add_unique_hopping m h))
 \<and> count_list (state (snd (add_unique_state m (snd (add_unique_state m s))))) m
     = max 1 (count_list (state s) m)
 \<and> count_list (position (snd (add_unique_position m (snd (add_unique_position m s))))) m
     = max 1 (count_list (position s) m)
 \<and> count_list (onsite (snd (add_unique_onsite m (snd (add_unique_onsite m h))))) m
     = max 1 (count_list (onsite h) m)
 \<and> count_list (hopping (snd (add_unique_hopping m (snd (add_unique_hopping m h))))) m
     = max 1 (count_list (hopping h) m)"
proof -
  have c1: "m \<in> set xs \<Longrightarrow> max (Suc 0) (count_list xs m) = count_list xs m" for xs :: "nat list"
    using count_list_0_iff [of xs m] by (simp add: max_def)
  have c0: "m \<notin> set xs \<Longrightarrow> count_list xs m = 0" for xs :: "nat list"
    by (simp add: count_list_0_iff)
  have 1: "add_unique_state m s =
     (m \<notin> set (state s), if m \<in> set (state s) then s else s\<lparr>state := state s @ [m]\<rparr>)"
    by (simp add: add_unique_state_def)
  have 2: "add_unique_position m s =
     (m \<notin> set (position s), if m \<in> set (position s) then s else s\<lparr>position := position s @ [m]\<rparr>)"
    by (simp add: add_unique_position_def)
  have 3: "add_unique_onsite m h =
     (m \<notin> set (onsite h), if m \<in> set (onsite h) then h else h\<lparr>onsite := onsite h @ [m]\<rparr>)"
    by (simp add: add_unique_onsite_def)
  have 4: "add_unique_hopping m h =
     (m \<notin> set (hopping h), if m \<in> set (hopping h) then h else h\<lparr>hopping := hopping h @ [m]\<rparr>)"
    by (simp add: add_unique_hopping_def)
  have 5: "add_unique_state m (snd (add_unique_state m s)) = (False, snd (add_unique_state m s))"
    by (simp add: add_unique_state_def)
  have 6: "add_unique_position m (snd (add_unique_position m s)) = (False, snd (add_unique_position m s))"
    by (simp add: add_unique_position_def)
  have 7: "add_unique_onsite m (snd (add_unique_onsite m h)) = (False, snd (add_unique_onsite m h))"
    by (simp add: add_unique_onsite_def)
  have 8: "add_unique_hopping m (snd (add_unique_hopping m h)) = (False, snd (add_unique_hopping m h))"
    by (simp add: add_unique_hopping_def)
  have 9: "count_list (state (snd (add_unique_state m (snd (add_unique_state m s))))) m
     = max 1 (count_list (state s) m)"
    unfolding 5 by (cases "m \<in> set (state s)") (simp_all add: add_unique_state_def c1 c0)
  have 10: "count_list (position (snd (add_unique_position m (snd (add_unique_position m s))))) m
     = max 1 (count_list (position s) m)"
    unfolding 6 by (cases "m \<in> set (position s)") (simp_all add: add_unique_position_def c1 c0)
  have 11: "count_list (onsite (snd (add_unique_onsite m (snd (add_unique_onsite m h))))) m
     = max 1 (count_list (onsite h) m)"
    unfolding 7 by (cases "m \<in> set (onsite h)") (simp_all add: add_unique_onsite_def c1 c0)
  have 12: "count_list (hopping (snd (add_unique_hopping m (snd (add_unique_hopping m h))))) m
     = max 1 (count_list (hopping h) m)"
    unfolding 8 by (cases "m \<in> set (hopping h)") (simp_all add: add_unique_hopping_def c1 c0)
  from 1 2 3 4 5 6 7 8 9 10 11 12 show ?thesis by blast
qed

theorem add_unique_by_identity_witness:
  "add_unique_state 7 \<lparr>state = [], position = []\<rparr> = (True, \<lparr>state = [7], position = []\<rparr>)
 \<and> add_unique_state 7 \<lparr>state = [7], position = []\<rparr> = (False, \<lparr>state = [7], position = []\<rparr>)
 \<and> add_unique_hopping 3 \<lparr>onsite = [3], hopping = [5]\<rparr> = (True, \<lparr>onsite = [3], hopping = [5, 3]\<rparr>)"
  using add_unique_by_identity [of 7 "\<lparr>state = [], position = []\<rparr>" "\<lparr>onsite = [3], hopping = [5]\<rparr>"]
    add_unique_by_identity [of 7 "\<lparr>state = [7], position = []\<rparr>" "\<lparr>onsite = [3], hopping = [5]\<rparr>"]
    add_unique_by_identity [of 3 "\<lparr>state = [], position = []\<rparr>" "\<lparr>onsite = [3], hopping = [5]\<rparr>"]
  by simp

section \<open>Properties of generated hoppings\<close>

lemma insert_diff_new: "k \<notin> B \<Longrightarrow> insert k (A - insert k B) = insert k A - B"
  by blast

lemma add_generated_edge_cases:
  "add_generated_edge hopping_id m e =
     (if stored_position e \<in> fst ` set (entries m) then m
      else m\<lparr>entries := entries m @ [(stored_position e, hopping_id)]\<rparr>)"
  by (simp add: add_generated_edge_def stored_position_def Let_def map_of_eq_None_iff)

text \<open>
  What a run of generated edges appends: one entry per stored position that was not
  there before, each with the family's hopping id.
\<close>

lemma generated_edges_append:
  "\<exists>new. entries (foldl (add_generated_edge hopping_id) m es) = entries m @ new
         \<and> distinct (map fst new)
         \<and> set (map fst new) = stored_position ` set es - fst ` set (entries m)
         \<and> (\<forall>e\<in>set new. snd e = hopping_id)
         \<and> nrows (foldl (add_generated_edge hopping_id) m es) = nrows m
         \<and> ncols (foldl (add_generated_edge hopping_id) m es) = ncols m"
proof (induction es arbitrary: m)
  case Nil
  show ?case by simp
next
  case (Cons e es)
  let ?k = "stored_position e"
  show ?case
  proof (cases "?k \<in> fst ` set (entries m)")
    case True
    then have same: "add_generated_edge hopping_id m e = m"
      by (simp add: add_generated_edge_cases)
    from Cons.IH [of m] obtain new where new:
      "entries (foldl (add_generated_edge hopping_id) m es) = entries m @ new"
      "distinct (map fst new)"
      "set (map fst new) = stored_position ` set es - fst ` set (entries m)"
      "\<forall>e\<in>set new. snd e = hopping_id"
      "nrows (foldl (add_generated_edge hopping_id) m es) = nrows m"
      "ncols (foldl (add_generated_edge hopping_id) m es) = ncols m"
      by blast
    have "set (map fst new) = stored_position ` set (e # es) - fst ` set (entries m)"
      using new(3) True by auto
    with new same show ?thesis by auto
  next
    case False
    let ?m1 = "m\<lparr>entries := entries m @ [(?k, hopping_id)]\<rparr>"
    have step: "add_generated_edge hopping_id m e = ?m1"
      using False by (simp add: add_generated_edge_cases)
    from Cons.IH [of ?m1] obtain new where new:
      "entries (foldl (add_generated_edge hopping_id) ?m1 es) = entries ?m1 @ new"
      "distinct (map fst new)"
      "set (map fst new) = stored_position ` set es - fst ` set (entries ?m1)"
      "\<forall>e\<in>set new. snd e = hopping_id"
      "nrows (foldl (add_generated_edge hopping_id) ?m1 es) = nrows ?m1"
      "ncols (foldl (add_generated_edge hopping_id) ?m1 es) = ncols ?m1"
      by blast
    let ?new = "(?k, hopping_id) # new"
    have 1: "entries (foldl (add_generated_edge hopping_id) m (e # es)) = entries m @ ?new"
      using new(1) step by simp
    have notin: "?k \<notin> set (map fst new)"
      using new(3) by simp
    have 2: "distinct (map fst ?new)"
      using new(2) notin by simp
    have 3: "set (map fst ?new) = stored_position ` set (e # es) - fst ` set (entries m)"
    proof -
      have "set (map fst new) = stored_position ` set es - insert ?k (fst ` set (entries m))"
        using new(3) by simp
      then have "set (map fst ?new)
                   = insert ?k (stored_position ` set es - insert ?k (fst ` set (entries m)))"
        by simp
      also have "\<dots> = stored_position ` set (e # es) - fst ` set (entries m)"
        using insert_diff_new [OF False, of "stored_position ` set es"] by simp
      finally show ?thesis .
    qed
    have 4: "\<forall>e\<in>set ?new. snd e = hopping_id"
      using new(4) by simp
    have 5: "nrows (foldl (add_generated_edge hopping_id) m (e # es)) = nrows m"
      "ncols (foldl (add_generated_edge hopping_id) m (e # es)) = ncols m"
      using new(5,6) step by simp_all
    from 1 2 3 4 5 show ?thesis by blast
  qed
qed

lemma stored_position_upper: "fst (stored_position e) \<le> snd (stored_position e)"
  by (simp add: stored_position_def)

lemma stored_position_reverse: "stored_position (b, a) = stored_position (a, b)"
  by (simp add: stored_position_def min.commute max.commute)

text \<open>
  Claim C4. Whatever edges a hopping generator returns, they are merged in
  upper-triangular form with reversed and duplicate edges collapsed: the matrix keeps
  every entry it had, in place and with its value (first writer wins); it gains exactly
  one entry, with the family's hopping id, for each position \<open>(min from to, max from to)\<close>
  of a returned edge that was not stored before, and no second entry for any position; an
  edge and its reverse have the same position. In particular, on a matrix that stores
  nothing at \<open>(0, 1)\<close>, the generator \<open>from = [0]\<close>, \<open>to = [1]\<close> adds exactly one entry, at
  \<open>(0, 1)\<close> and not at \<open>(1, 0)\<close>, and the generator that returns \<open>(0, 1)\<close> and its reverse
  \<open>(1, 0)\<close> adds that same single entry.
\<close>

theorem generated_hoppings_upper_triangular:
  "(\<exists>new. entries (add_hopping_family hopping_id r m) = entries m @ new
        \<and> distinct (map fst new)
        \<and> set (map fst new)
            = stored_position ` set (zip (from_indices r) (to_indices r)) - fst ` set (entries m)
        \<and> (\<forall>e\<in>set new. snd e = hopping_id \<and> fst (fst e) \<le> snd (fst e)))
 \<and> fst ` set (entries (add_hopping_family hopping_id r m))
     = fst ` set (entries m) \<union> stored_position ` set (zip (from_indices r) (to_indices r))
 \<and> (distinct (map fst (entries m)) \<longrightarrow>
      distinct (map fst (entries (add_hopping_family hopping_id r m))))
 \<and> (\<forall>i j. map_of (entries m) (i, j) \<noteq> None \<longrightarrow>
      coeff (add_hopping_family hopping_id r m) i j = coeff m i j)
 \<and> nrows (add_hopping_family hopping_id r m) = nrows m
 \<and> ncols (add_hopping_family hopping_id r m) = ncols m
 \<and> stored_position (b, a) = stored_position (a, b)
 \<and> (map_of (entries m) (0, 1) = None \<longrightarrow>
       entries (add_hopping_family hopping_id \<lparr>from_indices = [0], to_indices = [1]\<rparr> m)
         = entries m @ [((0, 1), hopping_id)]
     \<and> entries (add_hopping_family hopping_id \<lparr>from_indices = [0, 1], to_indices = [1, 0]\<rparr> m)
         = entries m @ [((0, 1), hopping_id)]
     \<and> entries (add_hopping_family hopping_id \<lparr>from_indices = [1], to_indices = [0]\<rparr> m)
         = entries m @ [((0, 1), hopping_id)]
     \<and> nonZeros (add_hopping_family hopping_id \<lparr>from_indices = [0], to_indices = [1]\<rparr> m)
         = nonZeros m + 1
     \<and> nonZeros (add_hopping_family hopping_id \<lparr>from_indices = [0, 1], to_indices = [1, 0]\<rparr> m)
         = nonZeros m + 1
     \<and> coeff (add_hopping_family hopping_id \<lparr>from_indices = [0], to_indices = [1]\<rparr> m) 0 1
         = hopping_id
     \<and> coeff (add_hopping_family hopping_id \<lparr>from_indices = [0, 1], to_indices = [1, 0]\<rparr> m) 0 1
         = hopping_id
     \<and> coeff (add_hopping_family hopping_id \<lparr>from_indices = [0], to_indices = [1]\<rparr> m) 1 0
         = coeff m 1 0
     \<and> coeff (add_hopping_family hopping_id \<lparr>from_indices = [0, 1], to_indices = [1, 0]\<rparr> m) 1 0
         = coeff m 1 0)"
proof -
  let ?es = "zip (from_indices r) (to_indices r)"
  let ?res = "add_hopping_family hopping_id r m"
  from generated_edges_append [of hopping_id m ?es] obtain new where new:
    "entries ?res = entries m @ new"
    "distinct (map fst new)"
    "set (map fst new) = stored_position ` set ?es - fst ` set (entries m)"
    "\<forall>e\<in>set new. snd e = hopping_id"
    "nrows ?res = nrows m" "ncols ?res = ncols m"
    unfolding add_hopping_family_def by blast
  have upper: "\<forall>e\<in>set new. fst (fst e) \<le> snd (fst e)"
  proof
    fix e assume "e \<in> set new"
    then have "fst e \<in> stored_position ` set ?es" using new(3) by auto
    then show "fst (fst e) \<le> snd (fst e)" by (auto simp: stored_position_upper)
  qed
  have A: "\<exists>new. entries ?res = entries m @ new
        \<and> distinct (map fst new)
        \<and> set (map fst new) = stored_position ` set ?es - fst ` set (entries m)
        \<and> (\<forall>e\<in>set new. snd e = hopping_id \<and> fst (fst e) \<le> snd (fst e))"
    using new(1-4) upper by blast
  have B: "fst ` set (entries ?res) = fst ` set (entries m) \<union> stored_position ` set ?es"
  proof -
    have "fst ` set (entries ?res) = fst ` set (entries m) \<union> set (map fst new)"
      unfolding new(1) by (simp add: image_Un)
    then show ?thesis unfolding new(3) by auto
  qed
  have C: "distinct (map fst (entries ?res))" if "distinct (map fst (entries m))"
  proof -
    have "set (map fst (entries m)) \<inter> set (map fst new) = {}"
      unfolding new(3) by auto
    with that new(2) show ?thesis unfolding new(1) by simp
  qed
  have D: "coeff ?res i j = coeff m i j" if "map_of (entries m) (i, j) \<noteq> None" for i j
    using that unfolding coeff_def new(1) by (auto simp: map_add_def split: option.splits)
  have T: "entries (add_hopping_family hopping_id \<lparr>from_indices = [0], to_indices = [1]\<rparr> m)
         = entries m @ [((0, 1), hopping_id)]
     \<and> entries (add_hopping_family hopping_id \<lparr>from_indices = [0, 1], to_indices = [1, 0]\<rparr> m)
         = entries m @ [((0, 1), hopping_id)]
     \<and> entries (add_hopping_family hopping_id \<lparr>from_indices = [1], to_indices = [0]\<rparr> m)
         = entries m @ [((0, 1), hopping_id)]
     \<and> nonZeros (add_hopping_family hopping_id \<lparr>from_indices = [0], to_indices = [1]\<rparr> m)
         = nonZeros m + 1
     \<and> nonZeros (add_hopping_family hopping_id \<lparr>from_indices = [0, 1], to_indices = [1, 0]\<rparr> m)
         = nonZeros m + 1
     \<and> coeff (add_hopping_family hopping_id \<lparr>from_indices = [0], to_indices = [1]\<rparr> m) 0 1
         = hopping_id
     \<and> coeff (add_hopping_family hopping_id \<lparr>from_indices = [0, 1], to_indices = [1, 0]\<rparr> m) 0 1
         = hopping_id
     \<and> coeff (add_hopping_family hopping_id \<lparr>from_indices = [0], to_indices = [1]\<rparr> m) 1 0
         = coeff m 1 0
     \<and> coeff (add_hopping_family hopping_id \<lparr>from_indices = [0, 1], to_indices = [1, 0]\<rparr> m) 1 0
         = coeff m 1 0"
    if free: "map_of (entries m) (0, 1) = None"
  proof -
    have one: "add_hopping_family hopping_id \<lparr>from_indices = [0], to_indices = [1]\<rparr> m
                 = m\<lparr>entries := entries m @ [((0, 1), hopping_id)]\<rparr>"
      using free by (simp add: add_hopping_family_def add_generated_edge_def)
    have two: "add_hopping_family hopping_id \<lparr>from_indices = [0, 1], to_indices = [1, 0]\<rparr> m
                 = m\<lparr>entries := entries m @ [((0, 1), hopping_id)]\<rparr>"
      using free by (simp add: add_hopping_family_def add_generated_edge_def map_add_def)
    have rev: "add_hopping_family hopping_id \<lparr>from_indices = [1], to_indices = [0]\<rparr> m
                 = m\<lparr>entries := entries m @ [((0, 1), hopping_id)]\<rparr>"
      using free by (simp add: add_hopping_family_def add_generated_edge_def)
    have c01: "coeff (m\<lparr>entries := entries m @ [((0, 1), hopping_id)]\<rparr>) 0 1 = hopping_id"
      using free by (simp add: coeff_def map_add_def)
    have c10: "coeff (m\<lparr>entries := entries m @ [((0, 1), hopping_id)]\<rparr>) 1 0 = coeff m 1 0"
      by (simp add: coeff_def map_add_def split: option.splits)
    show ?thesis
      unfolding one two rev using c01 c10 by (simp add: nonZeros_def)
  qed
  from A B C D T new(5,6) stored_position_reverse [of b a] show ?thesis
    by blast
qed

text \<open>The two sections of the test: hopping id \<open>1\<close> on the model without hoppings.\<close>

theorem generated_hoppings_upper_triangular_witness:
  "nonZeros (add_hopping_family 1 \<lparr>from_indices = [0], to_indices = [1]\<rparr> no_hoppings) = 1
 \<and> coeff (add_hopping_family 1 \<lparr>from_indices = [0], to_indices = [1]\<rparr> no_hoppings) 0 1 = 1
 \<and> nonZeros (add_hopping_family 1 \<lparr>from_indices = [0, 1], to_indices = [1, 0]\<rparr> no_hoppings) = 1
 \<and> coeff (add_hopping_family 1 \<lparr>from_indices = [0, 1], to_indices = [1, 0]\<rparr> no_hoppings) 0 1 = 1
 \<and> coeff (add_hopping_family 1 \<lparr>from_indices = [0, 1], to_indices = [1, 0]\<rparr> no_hoppings) 1 0 = 0
 \<and> distinct (map fst (entries (add_hopping_family 1 \<lparr>from_indices = [0, 1], to_indices = [1, 0]\<rparr> no_hoppings)))"
proof -
  have free: "map_of (entries no_hoppings) (0, 1) = None"
    by (simp add: no_hoppings_def)
  have base: "nonZeros no_hoppings = 0" "coeff no_hoppings 1 0 = 0"
    "distinct (map fst (entries no_hoppings))"
    by (simp_all add: no_hoppings_def nonZeros_def coeff_def)
  let ?one = "add_hopping_family 1 \<lparr>from_indices = [0], to_indices = [1]\<rparr> no_hoppings"
  let ?two = "add_hopping_family 1 \<lparr>from_indices = [0, 1], to_indices = [1, 0]\<rparr> no_hoppings"
  from generated_hoppings_upper_triangular
         [of 1 "\<lparr>from_indices = [0, 1], to_indices = [1, 0]\<rparr>" no_hoppings 0 1] free base(3)
  have "nonZeros ?one = nonZeros no_hoppings + 1" "coeff ?one 0 1 = 1"
    "nonZeros ?two = nonZeros no_hoppings + 1" "coeff ?two 0 1 = 1"
    "coeff ?two 1 0 = coeff no_hoppings 1 0" "distinct (map fst (entries ?two))"
    by blast+
  then show ?thesis
    using base(1,2) by simp
qed

section \<open>Properties of nonzeros_per_row\<close>





end
